theory Spec2Isabelle
  imports Complex_Main "HOL-Library.Log_Nat" "HOL-Library.Word"
begin

section \<open>QCustomLog: a shallow embedding of qcustomlog.cpp\<close>

text \<open>
  The class keeps its whole state in static members. The embedding collects them in one
  record, passes it through every function, and records the effects on the outside
  world (console, observer, error handler, file operations) as a list of events.
\<close>

subsection \<open>Severity levels\<close>

text \<open>Qt's \<open>QtMsgType\<close>, in the order of Qt's declaration.\<close>

datatype QtMsgType = QtDebugMsg | QtWarningMsg | QtCriticalMsg | QtFatalMsg | QtInfoMsg

text \<open>
  \<open>QCustomLog::levelGreaterOrEqual\<close>: the equality test first, then the switch on
  \<open>minLevel\<close>. The \<open>default\<close> branch of the switch is for values outside the
  enumeration and has no counterpart here.
\<close>

fun levelGreaterOrEqual :: "QtMsgType \<Rightarrow> QtMsgType \<Rightarrow> bool" where
  "levelGreaterOrEqual level minLevel =
     (if level = minLevel then True
      else (case minLevel of
              QtDebugMsg \<Rightarrow> True
            | QtInfoMsg \<Rightarrow> (if level = QtDebugMsg then False else True)
            | QtWarningMsg \<Rightarrow>
                (if level = QtDebugMsg \<or> level = QtInfoMsg then False else True)
            | QtCriticalMsg \<Rightarrow>
                (if level = QtCriticalMsg \<or> level = QtFatalMsg then True else False)
            | QtFatalMsg \<Rightarrow> (if level = QtFatalMsg then True else False)))"

text \<open>
  The specification's side of the comparison: the order
  Debug < Info < Warning < Critical < Fatal as a rank, and the threshold table of
  section 4.1 written out row by row (rows are \<open>minLevel\<close>, columns are \<open>level\<close>).
\<close>

fun severity :: "QtMsgType \<Rightarrow> nat" where
  "severity QtDebugMsg = 0"
| "severity QtInfoMsg = 1"
| "severity QtWarningMsg = 2"
| "severity QtCriticalMsg = 3"
| "severity QtFatalMsg = 4"

fun thresholdTable :: "QtMsgType \<Rightarrow> QtMsgType \<Rightarrow> bool" where
  "thresholdTable QtDebugMsg level = True"
| "thresholdTable QtInfoMsg level = (level \<noteq> QtDebugMsg)"
| "thresholdTable QtWarningMsg level = (level \<noteq> QtDebugMsg \<and> level \<noteq> QtInfoMsg)"
| "thresholdTable QtCriticalMsg level = (level = QtCriticalMsg \<or> level = QtFatalMsg)"
| "thresholdTable QtFatalMsg level = (level = QtFatalMsg)"

subsection \<open>Single and double precision\<close>

text \<open>
  The durations are \<open>float\<close> values, and one division is carried out in \<open>double\<close>. A
  finite IEEE 754 value is modelled by the real number it stands for, and every
  operation of the source by the exact operation followed by the rounding of its result
  to the format: \<open>roundTo prec emin x\<close> is the number with \<open>prec\<close> significant bits and an
  exponent of at least \<open>emin\<close> that is nearest to \<open>x\<close>, the one with the even significand
  when two are equally near. \<open>exponent x\<close> is the integer \<open>e\<close> with
  \<open>2 powi e \<le> \<bar>x\<bar> < 2 powi (e + 1)\<close>; below \<open>emin\<close> the spacing of the subnormal numbers is
  used. Each product and each sum of a \<open>float\<close> expression is rounded on its own, as a
  compiler does that neither keeps excess precision nor fuses a multiplication with an
  addition. The two zeros are not told apart. Infinities and NaN have no counterpart:
  the durations come from a 64-bit count of nanoseconds, and in every reachable state
  the averages are within \<open>2 ^ 35\<close> (lemma \<open>reachable_averagesBounded\<close>), far from the
  overflow threshold \<open>2 ^ 128\<close>.
\<close>

definition exponent :: "real \<Rightarrow> int" where
  "exponent x =
     (if 1 \<le> \<bar>x\<bar> then bitlen \<lfloor>\<bar>x\<bar>\<rfloor> - 1 else - bitlen (\<lceil>1 / \<bar>x\<bar>\<rceil> - 1))"

definition roundEven :: "real \<Rightarrow> int" where
  "roundEven y =
     (let n = \<lfloor>y\<rfloor>; d = y - of_int n
      in if d < 1 / 2 then n else if 1 / 2 < d then n + 1
         else if even n then n else n + 1)"

definition roundTo :: "nat \<Rightarrow> int \<Rightarrow> real \<Rightarrow> real" where
  "roundTo prec emin x =
     (let q = max (exponent x) emin - (int prec - 1)
      in of_int (roundEven (x / 2 powi q)) * 2 powi q)"

text \<open>Conversion to \<open>float\<close> (binary32) and to \<open>double\<close> (binary64).\<close>

definition toFloat :: "real \<Rightarrow> real" where
  "toFloat x = roundTo 24 (- 126) x"

definition toDouble :: "real \<Rightarrow> real" where
  "toDouble x = roundTo 53 (- 1022) x"

subsection \<open>Duration averages\<close>

text \<open>
  \<open>float elapsed=(float)elapsedTimer.nsecsElapsed()/1e9\<close>: the \<open>qint64\<close> count is
  converted to \<open>float\<close>, divided by the \<open>double\<close> constant \<open>1e9\<close> in double precision,
  and the quotient converted to \<open>float\<close>.
\<close>

definition elapsedSeconds :: "64 word \<Rightarrow> real" where
  "elapsedSeconds nsecsElapsed =
     toFloat (toDouble (toFloat (of_int (sint nsecsElapsed)) / 1000000000))"

text \<open>
  The two averages. The constants \<open>0.9f\<close>, \<open>0.1f\<close>, \<open>0.8f\<close> and \<open>0.2f\<close> are the \<open>float\<close>
  values nearest to the decimal fractions. The flush average is updated at the end of a
  successful \<open>flushBuffer\<close>, the rotation average at the end of a successful
  \<open>rotateLogFiles\<close> other than the first.
\<close>

definition flushTimeEMA :: "real \<Rightarrow> real \<Rightarrow> real" where
  "flushTimeEMA elapsedAvg elapsed =
     (if elapsedAvg \<le> 0 then elapsed
      else toFloat (toFloat (elapsedAvg * toFloat (9 / 10))
                    + toFloat (elapsed * toFloat (1 / 10))))"

definition rotationTimeEMA :: "real \<Rightarrow> real \<Rightarrow> real" where
  "rotationTimeEMA elapsedAvg elapsed =
     (if elapsedAvg \<le> 0 then elapsed
      else toFloat (toFloat (elapsedAvg * toFloat (8 / 10))
                    + toFloat (elapsed * toFloat (2 / 10))))"

subsection \<open>Strings and file names\<close>

text \<open>
  The pieces of \<open>QString\<close> the rotation uses. \<open>indexOf\<close> and \<open>lastIndexOf\<close> return
  \<open>-1\<close> when the character is absent. \<open>mid\<close> follows Qt: nothing when the position
  is past the end, the rest of the string when the count is negative or too large.
  \<open>toUInt\<close> accepts a non-empty string of decimal digits whose value fits 32 bits; Qt's
  tolerance of surrounding white space is not modelled. \<open>number\<close> is
  \<open>QString::number\<close> in base 10.
\<close>

definition indexOf :: "char \<Rightarrow> string \<Rightarrow> int" where
  "indexOf c s =
     (if c \<in> set s then int (length (takeWhile (\<lambda>x. x \<noteq> c) s)) else - 1)"

definition lastIndexOf :: "char \<Rightarrow> string \<Rightarrow> int" where
  "lastIndexOf c s =
     (if c \<in> set s
      then int (length s) - 1 - int (length (takeWhile (\<lambda>x. x \<noteq> c) (rev s)))
      else - 1)"

definition mid :: "string \<Rightarrow> int \<Rightarrow> int \<Rightarrow> string" where
  "mid s position n =
     (if int (length s) < position then []
      else if position < 0 then
        (if n < 0 \<or> int (length s) \<le> n + position then s
         else if n + position \<le> 0 then []
         else take (nat (n + position)) s)
      else if n < 0 \<or> int (length s) - position < n then drop (nat position) s
      else take (nat n) (drop (nat position) s))"

definition isDigit :: "char \<Rightarrow> bool" where
  "isDigit c = (c \<in> set ''0123456789'')"

definition digitValue :: "char \<Rightarrow> nat" where
  "digitValue c = of_char c - 48"

definition toUInt :: "string \<Rightarrow> nat option" where
  "toUInt s =
     (if s = [] \<or> \<not> list_all isDigit s then None
      else (let v = foldl (\<lambda>a c. 10 * a + digitValue c) 0 s
            in if v < 4294967296 then Some v else None))"

definition digitChar :: "nat \<Rightarrow> char" where
  "digitChar d = ''0123456789'' ! d"

fun number :: "nat \<Rightarrow> string" where
  "number n = (if n < 10 then [digitChar n] else number (n div 10) @ [digitChar (n mod 10)])"

declare number.simps [simp del]

definition dq :: string where
  "dq = [CHR 0x22]"

text \<open>
  What the program is built as: \<open>QCoreApplication::applicationName()\<close>,
  \<open>QCoreApplication::applicationDirPath()\<close>, and whether \<open>NDEBUG\<close> is defined.
\<close>

record program =
  applicationName :: string
  applicationDirPath :: string
  NDEBUG :: bool

definition mainLogFileName :: "program \<Rightarrow> string" where
  "mainLogFileName p = applicationName p @ ''_0.log''"

definition indexedLogFileName :: "program \<Rightarrow> nat \<Rightarrow> string" where
  "indexedLogFileName p i = applicationName p @ ''_'' @ number i @ ''.log''"

text \<open>
  The name filter \<open>applicationName + "_*.log"\<close> of \<open>entryInfoList\<close>, for an application
  name without wildcard characters, compared case-sensitively.
\<close>

definition nameFilter :: "program \<Rightarrow> string \<Rightarrow> bool" where
  "nameFilter p fileName =
     (length (applicationName p) + 5 \<le> length fileName
      \<and> take (length (applicationName p) + 1) fileName = applicationName p @ ''_''
      \<and> drop (length fileName - 4) fileName = ''.log'')"

definition postfix :: "string \<Rightarrow> string" where
  "postfix fileName =
     mid fileName (indexOf (CHR ''_'') fileName + 1)
       (lastIndexOf (CHR ''.'') fileName - indexOf (CHR ''_'') fileName - 1)"

subsection \<open>State, environment and events\<close>

datatype event =
    Console QtMsgType string
  | SendLog QtMsgType string string
  | TimerStart
  | ErrorReport string
  | FileRemove string bool
  | FileRename string string bool
  | FileCreate string bool
  | FileOpen string bool
  | FileWrite string string bool
  | FileFlush string
  | FileClose string
  | FlushDiagnostic real real
  | RotateDiagnostic real real

text \<open>
  \<open>Console t x\<close> is a line sent through \<open>qDebug\<close>, \<open>qInfo\<close>, \<open>qWarning\<close>,
  \<open>qCritical\<close> or \<open>qFatal\<close> from inside the handler; \<open>Console QtFatalMsg x\<close> is the
  \<open>qFatal\<close> call, in which Qt terminates the process. \<open>SendLog\<close> is the call of the
  virtual \<open>sendLog\<close> of the installed instance. \<open>ErrorReport\<close> is a call of the
  installed error handler. The file events carry the file name (relative to the log
  directory) and, where the operation can fail, whether it succeeded. The two
  diagnostics are the \<open>std::cout\<close> lines of debug builds.

  The static members, under their own names. \<open>m_errorHandler\<close> is whether a handler is
  installed, \<open>firstTime\<close> the static local of \<open>rotateLogFiles\<close>, \<open>files\<close> the regular
  files of the log directory with their contents (in the order the directory lists
  them, names distinct), \<open>events\<close> what has happened so far.
\<close>

record QCustomLog =
  m_errorHandler :: bool
  m_cleanLogCategory :: string
  m_cleanLogCategoryIsSet :: bool
  m_cleanToFile :: bool
  m_minOutLevel :: QtMsgType
  m_minOutFileLevel :: QtMsgType
  m_logDir :: string
  m_logFileName :: string
  m_maxLogFiles :: nat
  m_maxLogFileSize :: nat
  m_logBufferTimerInterval :: nat
  m_logBuffer :: "string list"
  m_maxBufferMessages :: nat
  m_logBufferEnabled :: bool
  m_logBufferFlushTime :: real
  m_logRotationTime :: real
  firstTime :: bool
  messageHandlerInstalled :: bool
  files :: "(string \<times> string) list"
  events :: "event list"

text \<open>
  What the code cannot decide by itself, for one call: which file operations the
  operating system lets succeed, the \<open>errorString\<close> of a file whose opening fails, the
  lines other threads enqueue while a flush holds the file lock (after the buffer has
  been swapped out), and what \<open>nsecsElapsed()\<close> returns at the end of the flush and of
  the rotation.
\<close>

record env =
  directoryOk :: bool
  removeOk :: "string \<Rightarrow> bool"
  renameOk :: "string \<Rightarrow> string \<Rightarrow> bool"
  createOk :: "string \<Rightarrow> bool"
  openOk :: "string \<Rightarrow> bool"
  openError :: "string \<Rightarrow> string"
  writeOk :: "string \<Rightarrow> bool"
  meanwhile :: "string list"
  flushNsecsElapsed :: "64 word"
  rotateNsecsElapsed :: "64 word"

text \<open>The value of \<open>elapsed\<close> in \<open>flushBuffer\<close> and in \<open>rotateLogFiles\<close>.\<close>

definition flushElapsed :: "env \<Rightarrow> real" where
  "flushElapsed env = elapsedSeconds (flushNsecsElapsed env)"

definition rotateElapsed :: "env \<Rightarrow> real" where
  "rotateElapsed env = elapsedSeconds (rotateNsecsElapsed env)"

definition emit :: "event \<Rightarrow> QCustomLog \<Rightarrow> QCustomLog" where
  "emit e s = s\<lparr>events := events s @ [e]\<rparr>"

definition callErrorHandler :: "string \<Rightarrow> QCustomLog \<Rightarrow> QCustomLog" where
  "callErrorHandler msg s = (if m_errorHandler s then emit (ErrorReport msg) s else s)"

subsection \<open>File operations\<close>

text \<open>
  \<open>QFile::remove\<close> fails on a missing file. \<open>QFile::rename\<close> fails on a missing
  source and, as Qt documents, when the new name exists: it never overwrites. Opening
  with \<open>WriteOnly|Truncate\<close> creates the file or empties it; opening with
  \<open>WriteOnly|Append\<close> creates it when missing.
\<close>

definition fileExists :: "(string \<times> string) list \<Rightarrow> string \<Rightarrow> bool" where
  "fileExists fs n = (n \<in> set (map fst fs))"

definition fileContent :: "(string \<times> string) list \<Rightarrow> string \<Rightarrow> string" where
  "fileContent fs n = (case map_of fs n of None \<Rightarrow> [] | Some c \<Rightarrow> c)"

definition fileSize :: "(string \<times> string) list \<Rightarrow> string \<Rightarrow> nat" where
  "fileSize fs n = length (fileContent fs n)"

definition deleteEntry :: "string \<Rightarrow> (string \<times> string) list \<Rightarrow> (string \<times> string) list" where
  "deleteEntry n fs = filter (\<lambda>e. fst e \<noteq> n) fs"

definition renameEntry ::
  "string \<Rightarrow> string \<Rightarrow> (string \<times> string) list \<Rightarrow> (string \<times> string) list" where
  "renameEntry a b fs = map (\<lambda>e. if fst e = a then (b, snd e) else e) fs"

definition truncateEntry :: "string \<Rightarrow> (string \<times> string) list \<Rightarrow> (string \<times> string) list" where
  "truncateEntry n fs =
     (if fileExists fs n then map (\<lambda>e. if fst e = n then (n, []) else e) fs
      else fs @ [(n, [])])"

definition appendEntry ::
  "string \<Rightarrow> string \<Rightarrow> (string \<times> string) list \<Rightarrow> (string \<times> string) list" where
  "appendEntry n bytes fs =
     (if fileExists fs n then map (\<lambda>e. if fst e = n then (n, snd e @ bytes) else e) fs
      else fs @ [(n, bytes)])"

definition removeFile :: "env \<Rightarrow> string \<Rightarrow> QCustomLog \<Rightarrow> bool \<times> QCustomLog" where
  "removeFile env n s =
     (let ok = (fileExists (files s) n \<and> removeOk env n)
      in (ok, emit (FileRemove n ok)
                (s\<lparr>files := (if ok then deleteEntry n (files s) else files s)\<rparr>)))"

definition renameFile :: "env \<Rightarrow> string \<Rightarrow> string \<Rightarrow> QCustomLog \<Rightarrow> bool \<times> QCustomLog" where
  "renameFile env a b s =
     (let ok = (fileExists (files s) a \<and> \<not> fileExists (files s) b \<and> renameOk env a b)
      in (ok, emit (FileRename a b ok)
                (s\<lparr>files := (if ok then renameEntry a b (files s) else files s)\<rparr>)))"

text \<open>\<open>QCustomLog::logFileTouch\<close>.\<close>

definition logFileTouch :: "env \<Rightarrow> string \<Rightarrow> QCustomLog \<Rightarrow> bool \<times> QCustomLog" where
  "logFileTouch env fileName s =
     (if \<not> createOk env fileName
      then (False, callErrorHandler (''Log file '' @ dq @ fileName @ dq @ '' creation error'')
                     (emit (FileCreate fileName False) s))
      else (True, emit (FileCreate fileName True)
                    (s\<lparr>files := truncateEntry fileName (files s)\<rparr>)))"

subsection \<open>Rotation\<close>

text \<open>
  The loops of \<open>rotateLogFiles\<close>, each as a recursive function over the list of file
  names \<open>fileList\<close> (a \<open>QFileInfo\<close> is used for its name only, except for the size
  of the first file).

  The loop that filters non-number postfixes runs from the last entry to the first: it
  is given the reversed list and puts every entry it keeps in front of those kept before.
\<close>

definition removeUnknown :: "env \<Rightarrow> string \<Rightarrow> QCustomLog \<Rightarrow> QCustomLog" where
  "removeUnknown env f s =
     (case removeFile env f s of
        (ok, s') \<Rightarrow>
          if \<not> ok
          then callErrorHandler (''Unknown log file '' @ dq @ f @ dq @ '' deletion error'') s'
          else s')"

fun filterPostfixes ::
  "env \<Rightarrow> string list \<Rightarrow> string list \<Rightarrow> QCustomLog \<Rightarrow> string list \<times> QCustomLog" where
  "filterPostfixes env [] kept s = (kept, s)"
| "filterPostfixes env (f # pending) kept s =
     (if toUInt (postfix f) = None
      then filterPostfixes env pending kept (removeUnknown env f s)
      else filterPostfixes env pending (f # kept) s)"

text \<open>
  \<open>std::sort\<close> by the numeric postfix. The order it leaves between two names with the
  same number is not specified; the embedding takes the stable insertion sort.
\<close>

definition postfixNumber :: "string \<Rightarrow> nat" where
  "postfixNumber f = (case toUInt (postfix f) of None \<Rightarrow> 0 | Some n \<Rightarrow> n)"

definition sortByPostfix :: "string list \<Rightarrow> string list" where
  "sortByPostfix fileList = sort_key postfixNumber fileList"

definition removeLastFile :: "env \<Rightarrow> string list \<Rightarrow> QCustomLog \<Rightarrow> QCustomLog" where
  "removeLastFile env fileList s =
     (case removeFile env (last fileList) s of
        (ok, s') \<Rightarrow>
          if \<not> ok
          then callErrorHandler (''Log file '' @ dq @ last fileList @ dq @ '' deletion error'') s'
          else s')"

text \<open>The loop \<open>while(fileList.count()>m_maxLogFiles)\<close>; \<open>maxFiles\<close> is \<open>m_maxLogFiles\<close>.\<close>

function removeRedundant ::
  "env \<Rightarrow> nat \<Rightarrow> string list \<Rightarrow> QCustomLog \<Rightarrow> string list \<times> QCustomLog" where
  "removeRedundant env maxFiles fileList s =
     (if maxFiles < length fileList
      then removeRedundant env maxFiles (butlast fileList) (removeLastFile env fileList s)
      else (fileList, s))"
  by pat_completeness auto
termination
  by (relation "measure (\<lambda>(env, maxFiles, fileList, s). length fileList)") auto

declare removeRedundant.simps [simp del]

text \<open>
  The temporary rename, in list order. A name whose rename fails stays as it is in the
  list (\<open>continue\<close> skips \<open>setFile\<close>).
\<close>

fun temporaryRename ::
  "env \<Rightarrow> string list \<Rightarrow> QCustomLog \<Rightarrow> string list \<times> QCustomLog" where
  "temporaryRename env [] s = ([], s)"
| "temporaryRename env (f # fileList) s =
     (case renameFile env f (f @ ''.temp'') s of
        (ok, s') \<Rightarrow>
          if \<not> ok
          then (case temporaryRename env fileList
                       (callErrorHandler (''Log file '' @ dq @ f @ dq @ '' renaming error'') s') of
                  (fileList', s'') \<Rightarrow> (f # fileList', s''))
          else (case temporaryRename env fileList s' of
                  (fileList', s'') \<Rightarrow> ((f @ ''.temp'') # fileList', s'')))"

text \<open>
  The linear rename \<open>for(int i=fileList.count()-1;i>=0;i--)\<close>: the argument \<open>Suc i\<close> stands
  for the loop at index \<open>i\<close>. The names the loop writes back into the list are not read
  again, so the list is not updated.
\<close>

fun linearRename :: "program \<Rightarrow> env \<Rightarrow> string list \<Rightarrow> nat \<Rightarrow> QCustomLog \<Rightarrow> QCustomLog" where
  "linearRename p env fileList 0 s = s"
| "linearRename p env fileList (Suc i) s =
     (if fileList ! i = indexedLogFileName p (i + 1) then linearRename p env fileList i s
      else (case renameFile env (fileList ! i) (indexedLogFileName p (i + 1)) s of
              (ok, s') \<Rightarrow>
                if \<not> ok
                then linearRename p env fileList i
                       (callErrorHandler
                          (''Log file '' @ dq @ (fileList ! i) @ dq @ '' renaming error'') s')
                else linearRename p env fileList i s'))"

text \<open>
  The end of \<open>rotateLogFiles\<close>, from the measurement of the elapsed time on: the
  average (skipped on the first call), the diagnostic line of debug builds, the flag,
  and the result.
\<close>

definition rotateFinish :: "program \<Rightarrow> env \<Rightarrow> QCustomLog \<Rightarrow> bool \<times> string \<times> QCustomLog" where
  "rotateFinish p env s =
     (let elapsed = rotateElapsed env;
          elapsedAvg = (if \<not> firstTime s then rotationTimeEMA (m_logRotationTime s) elapsed
                        else m_logRotationTime s);
          s1 = (if \<not> firstTime s then s\<lparr>m_logRotationTime := elapsedAvg\<rparr> else s);
          s2 = (if \<not> NDEBUG p \<and> m_minOutLevel s1 = QtDebugMsg
                   \<and> \<not> m_cleanLogCategoryIsSet s1 \<and> \<not> firstTime s1
                then emit (RotateDiagnostic elapsed elapsedAvg) s1 else s1);
          s3 = (if firstTime s2 then s2\<lparr>firstTime := False\<rparr> else s2)
      in (True, mainLogFileName p, s3))"

text \<open>
  The branch "new file is needed": room for the new file, the check for obstacles, the
  temporary rename, the linear rename, the empty main file.
\<close>

definition rotateNewFile ::
  "program \<Rightarrow> env \<Rightarrow> string list \<Rightarrow> QCustomLog \<Rightarrow> bool \<times> string \<times> QCustomLog" where
  "rotateNewFile p env fileList s =
     (let (fileList1, s1) =
            (if m_maxLogFiles s \<le> length fileList
             then (butlast fileList, removeLastFile env fileList s)
             else (fileList, s));
          lastFileName = indexedLogFileName p (length fileList1);
          obstacleFound = (lastFileName \<in> set fileList1);
          (fileList2, s2) =
            (if obstacleFound then temporaryRename env fileList1 s1 else (fileList1, s1));
          s3 = linearRename p env fileList2 (length fileList2) s2
      in (case logFileTouch env (mainLogFileName p) s3 of
            (ok, s4) \<Rightarrow>
              if \<not> ok then (False, mainLogFileName p, s4) else rotateFinish p env s4))"

text \<open>
  The branch \<open>if(logFileName.isEmpty())\<close>. \<open>fileList.first()\<close> on an empty list is
  undefined in Qt; the list can be empty there only when \<open>m_maxLogFiles\<close> is zero, and the
  embedding returns \<open>None\<close>.
\<close>

definition rotateScan ::
  "program \<Rightarrow> env \<Rightarrow> QCustomLog \<Rightarrow> (bool \<times> string \<times> QCustomLog) option" where
  "rotateScan p env s =
     (let entryInfoList = filter (nameFilter p) (map fst (files s));
          (fileList, s1) = filterPostfixes env (rev entryInfoList) [] s
      in if fileList \<noteq> [] then
           (let (fileList2, s2) = removeRedundant env (m_maxLogFiles s1) (sortByPostfix fileList) s1
            in (case fileList2 of
                  [] \<Rightarrow> None
                | first # rest \<Rightarrow>
                    if m_maxLogFileSize s2 \<le> fileSize (files s2) first
                       \<or> first \<noteq> mainLogFileName p
                    then Some (rotateNewFile p env fileList2 s2)
                    else Some (rotateFinish p env s2)))
         else (case logFileTouch env (mainLogFileName p) s1 of
                 (ok, s2) \<Rightarrow>
                   if \<not> ok then Some (False, mainLogFileName p, s2)
                   else Some (rotateFinish p env s2)))"

text \<open>
  \<open>QCustomLog::rotateLogFiles\<close>. The reference parameter \<open>logFileName\<close> is an argument
  and the second component of the result; the callers store it in \<open>m_logFileName\<close>.
\<close>

definition rotateLogFiles ::
  "program \<Rightarrow> env \<Rightarrow> string \<Rightarrow> QCustomLog \<Rightarrow> (bool \<times> string \<times> QCustomLog) option" where
  "rotateLogFiles p env logFileName s =
     (if m_logDir s = []
      then Some (False, logFileName, callErrorHandler ''Log directory is not set'' s)
      else
        (let logFileName1 =
               (if logFileName \<noteq> [] then
                  (if logFileName = mainLogFileName p then
                     (if \<not> fileExists (files s) logFileName
                         \<or> m_maxLogFileSize s \<le> fileSize (files s) logFileName
                      then [] else logFileName)
                   else [])
                else logFileName)
         in if logFileName1 = [] then rotateScan p env s
            else Some (rotateFinish p env s)))"

subsection \<open>Flushing the buffer\<close>

text \<open>
  The write loop \<open>while(!doubleBuffer.isEmpty()) logFile.write(...)\<close>. Each line goes out
  with a line feed after it. The source ignores the result of \<open>write\<close>: a line whose
  write fails is gone.
\<close>

definition eol :: string where
  "eol = [CHR 0x0A]"

fun writeLines :: "env \<Rightarrow> string \<Rightarrow> string list \<Rightarrow> QCustomLog \<Rightarrow> QCustomLog" where
  "writeLines env fileName [] s = s"
| "writeLines env fileName (line # doubleBuffer) s =
     writeLines env fileName doubleBuffer
       (emit (FileWrite fileName (line @ eol) (writeOk env line))
          (if writeOk env line
           then s\<lparr>files := appendEntry fileName (line @ eol) (files s)\<rparr>
           else s))"

text \<open>
  Putting the drained lines back: \<open>doubleBuffer.append(m_logBuffer); m_logBuffer=doubleBuffer\<close>.
\<close>

definition requeue :: "string list \<Rightarrow> QCustomLog \<Rightarrow> QCustomLog" where
  "requeue doubleBuffer s = s\<lparr>m_logBuffer := doubleBuffer @ m_logBuffer s\<rparr>"

text \<open>
  \<open>QCustomLog::flushBuffer\<close>, in three parts. \<open>restartTimer\<close> is the queued call of
  \<open>QTimer::start\<close> at its head. \<open>swapBuffer\<close> is the step under the buffer lock once the
  buffer is known not to be empty: the high-water mark, then the buffer swapped out; after
  the lock is released the lines of \<open>meanwhile env\<close> arrive from other threads. The
  result of \<open>flushBuffer\<close> is \<open>None\<close> only where \<open>rotateLogFiles\<close> is undefined.
\<close>

definition restartTimer :: "QCustomLog \<Rightarrow> QCustomLog" where
  "restartTimer s = (if m_logBufferEnabled s then emit TimerStart s else s)"

definition swapBuffer :: "env \<Rightarrow> QCustomLog \<Rightarrow> QCustomLog" where
  "swapBuffer env s =
     (let s1 = (if m_logBufferEnabled s \<and> m_maxBufferMessages s < length (m_logBuffer s)
                then s\<lparr>m_maxBufferMessages := length (m_logBuffer s)\<rparr> else s)
      in s1\<lparr>m_logBuffer := meanwhile env\<rparr>)"

text \<open>
  \<open>flushWrite\<close> is the rest of \<open>flushBuffer\<close> once the file is open: the write loop, the
  flush when forced, the close, the average, the diagnostic line of debug builds.
\<close>

definition flushWrite ::
  "program \<Rightarrow> env \<Rightarrow> bool \<Rightarrow> string \<Rightarrow> string list \<Rightarrow> QCustomLog \<Rightarrow> QCustomLog" where
  "flushWrite p env force logFileName doubleBuffer s5 =
     (let s6 = emit (FileOpen logFileName True)
                 (s5\<lparr>files := appendEntry logFileName [] (files s5)\<rparr>);
          s7 = writeLines env logFileName doubleBuffer s6;
          s8 = (if force then emit (FileFlush logFileName) s7 else s7);
          s9 = emit (FileClose logFileName) s8;
          elapsed = flushElapsed env;
          elapsedAvg = flushTimeEMA (m_logBufferFlushTime s9) elapsed;
          s10 = s9\<lparr>m_logBufferFlushTime := elapsedAvg\<rparr>
      in (if \<not> NDEBUG p \<and> m_minOutLevel s10 = QtDebugMsg \<and> \<not> m_cleanLogCategoryIsSet s10
          then emit (FlushDiagnostic elapsed elapsedAvg) s10
          else s10))"

definition flushBuffer :: "program \<Rightarrow> env \<Rightarrow> bool \<Rightarrow> QCustomLog \<Rightarrow> QCustomLog option" where
  "flushBuffer p env force s =
     (let s1 = restartTimer s
      in if m_logBuffer s1 = [] then Some s1
         else
           (let doubleBuffer = m_logBuffer s1;
                s3 = swapBuffer env s1
            in (case rotateLogFiles p env (m_logFileName s3) s3 of
                  None \<Rightarrow> None
                | Some (ok, logFileName, s4) \<Rightarrow>
                    (let s5 = s4\<lparr>m_logFileName := logFileName\<rparr>
                     in if \<not> ok then Some (requeue doubleBuffer s5)
                        else if \<not> openOk env logFileName
                        then Some (requeue doubleBuffer
                                     (callErrorHandler
                                        (''Log file '' @ dq @ logFileName @ dq @ '' open error: ''
                                           @ openError env logFileName)
                                        (emit (FileOpen logFileName False) s5)))
                        else Some (flushWrite p env force logFileName doubleBuffer s5)))))"

subsection \<open>The message handler\<close>

text \<open>
  One call of the handler: the category of the context, the text \<open>msg\<close>, the time
  rendered with the timestamp format, and, for debug messages, the file name without
  its directories and the function signature without its arguments (the string
  surgery on \<open>context.file\<close> and \<open>context.function\<close> is not part of the embedding).
\<close>

record logMessage =
  category :: string
  msg :: string
  timestamp :: string
  sourceFile :: string
  sourceFunction :: string

definition esc :: string where
  "esc = [CHR 0x1B]"

definition levelTag :: "QtMsgType \<Rightarrow> string" where
  "levelTag t =
     (case t of QtInfoMsg \<Rightarrow> '' [INF] ['' | QtWarningMsg \<Rightarrow> '' [WRN] [''
      | QtCriticalMsg \<Rightarrow> '' [CRT] ['' | QtFatalMsg \<Rightarrow> '' [FTL] [''
      | QtDebugMsg \<Rightarrow> '' [DBG] ['')"

definition messageOf :: "QtMsgType \<Rightarrow> logMessage \<Rightarrow> string" where
  "messageOf t m =
     (if t = QtDebugMsg then sourceFile m @ '': '' @ sourceFunction m @ '': '' @ msg m
      else msg m)"

definition formattedMessage :: "QtMsgType \<Rightarrow> logMessage \<Rightarrow> string" where
  "formattedMessage t m = timestamp m @ levelTag t @ category m @ ''] '' @ messageOf t m"

text \<open>The console output of the four non-fatal cases of the switch.\<close>

definition colour :: "QtMsgType \<Rightarrow> string \<Rightarrow> string" where
  "colour t x =
     (case t of QtInfoMsg \<Rightarrow> x
      | QtWarningMsg \<Rightarrow> esc @ ''[33m'' @ x @ esc @ ''[0m''
      | QtCriticalMsg \<Rightarrow> esc @ ''[31m'' @ x @ esc @ ''[0m''
      | QtFatalMsg \<Rightarrow> esc @ ''[35m'' @ x @ esc @ ''[0m''
      | QtDebugMsg \<Rightarrow> esc @ ''[90m'' @ x @ esc @ ''[0m'')"

definition consoleOutput :: "QtMsgType \<Rightarrow> logMessage \<Rightarrow> QCustomLog \<Rightarrow> QCustomLog" where
  "consoleOutput t m s =
     (if m_cleanLogCategory s = [] then
        (if levelGreaterOrEqual t (m_minOutLevel s)
         then emit (Console t (colour t (formattedMessage t m))) s else s)
      else if category m = m_cleanLogCategory s then emit (Console t (msg m)) s
      else s)"

text \<open>The \<open>qFatal\<close> call that ends the fatal case.\<close>

definition fatalOutput :: "logMessage \<Rightarrow> QCustomLog \<Rightarrow> QCustomLog" where
  "fatalOutput m s =
     (if m_cleanLogCategory s = []
      then emit (Console QtFatalMsg (colour QtFatalMsg (formattedMessage QtFatalMsg m))) s
      else emit (Console QtFatalMsg (''[FTL] '' @ msg m)) s)"

text \<open>
  The condition under which a message may be written and passed on: no clean category,
  another category, or clean messages allowed in the file.
\<close>

definition mayWrite :: "logMessage \<Rightarrow> QCustomLog \<Rightarrow> bool" where
  "mayWrite m s =
     (m_cleanLogCategory s = [] \<or> category m \<noteq> m_cleanLogCategory s \<or> m_cleanToFile s)"

definition enqueue :: "string \<Rightarrow> QCustomLog \<Rightarrow> QCustomLog" where
  "enqueue line s = s\<lparr>m_logBuffer := m_logBuffer s @ [line]\<rparr>"

definition sendLog :: "QtMsgType \<Rightarrow> logMessage \<Rightarrow> QCustomLog \<Rightarrow> QCustomLog" where
  "sendLog t m s = emit (SendLog t (category m) (messageOf t m)) s"

text \<open>\<open>QCustomLog::messageHandler\<close>.\<close>

definition messageHandler ::
  "program \<Rightarrow> env \<Rightarrow> QtMsgType \<Rightarrow> logMessage \<Rightarrow> QCustomLog \<Rightarrow> QCustomLog option" where
  "messageHandler p env t m s =
     (if NDEBUG p \<and> t = QtDebugMsg then Some s
      else if t = QtFatalMsg then
        (case (if mayWrite m s
               then map_option (sendLog t m)
                      (flushBuffer p env True (enqueue (formattedMessage t m) s))
               else Some s) of
           None \<Rightarrow> None
         | Some s1 \<Rightarrow> Some (fatalOutput m s1))
      else
        (let s1 = consoleOutput t m s
         in if mayWrite m s1 then
              map_option (sendLog t m)
                (if levelGreaterOrEqual t (m_minOutFileLevel s1) then
                   (let s2 = enqueue (formattedMessage t m) s1
                    in if t = QtCriticalMsg then flushBuffer p env True s2
                       else if \<not> m_logBufferEnabled s2 then flushBuffer p env False s2
                       else Some s2)
                 else Some s1)
            else Some s1))"

subsection \<open>Configuration and initialisation\<close>

definition setMinLevels :: "QtMsgType \<Rightarrow> QtMsgType \<Rightarrow> QCustomLog \<Rightarrow> QCustomLog" where
  "setMinLevels outLevel fileLevel s = s\<lparr>m_minOutLevel := outLevel, m_minOutFileLevel := fileLevel\<rparr>"

definition setCleanLogCategory :: "string \<Rightarrow> bool \<Rightarrow> QCustomLog \<Rightarrow> QCustomLog" where
  "setCleanLogCategory c writeToFile s =
     s\<lparr>m_cleanLogCategoryIsSet := (c \<noteq> []), m_cleanLogCategory := c, m_cleanToFile := writeToFile\<rparr>"

fun collapseSlashes :: "string \<Rightarrow> string" where
  "collapseSlashes (a # b # r) =
     (if a = CHR ''/'' \<and> b = CHR ''/'' then collapseSlashes (b # r)
      else a # collapseSlashes (b # r))"
| "collapseSlashes r = r"

definition normalizePath :: "string \<Rightarrow> string" where
  "normalizePath path =
     (let q = collapseSlashes (map (\<lambda>c. if c = CHR 0x5C then CHR ''/'' else c) path)
      in if q \<noteq> [] \<and> last q = CHR ''/'' then q else q @ ''/'')"

text \<open>
  \<open>ensureDirectoryWritable\<close>, on the directory that \<open>files\<close> stands for:
  \<open>directoryOk env\<close> is that the directory exists or can be made, and can be read.
\<close>

definition ensureDirectoryWritable :: "env \<Rightarrow> QCustomLog \<Rightarrow> bool \<times> QCustomLog" where
  "ensureDirectoryWritable env s =
     (if \<not> directoryOk env then (False, s)
      else
        (case (if fileExists (files s) ''test.tmp'' then removeFile env ''test.tmp'' s
               else (True, s)) of
           (removed, s1) \<Rightarrow>
             if \<not> removed then (False, s1)
             else if \<not> createOk env ''test.tmp'' then (False, emit (FileCreate ''test.tmp'' False) s1)
             else
               (case removeFile env ''test.tmp''
                       (emit (FileCreate ''test.tmp'' True)
                          (s1\<lparr>files := truncateEntry ''test.tmp'' (files s1)\<rparr>)) of
                  (ok, s2) \<Rightarrow> (ok, s2))))"

text \<open>
  \<open>QCustomLog::initLogging\<close>. The first rotation runs before \<open>m_maxLogFiles\<close> and
  \<open>m_maxLogFileSize\<close> are assigned, as in the source. Of the timer only the interval and
  its starts are kept; its time-out calls \<open>flushBuffer(false)\<close>.
\<close>

definition initLogging ::
  "program \<Rightarrow> env \<Rightarrow> string \<Rightarrow> nat \<Rightarrow> nat \<Rightarrow> nat \<Rightarrow> QCustomLog \<Rightarrow> (bool \<times> QCustomLog) option" where
  "initLogging p env logDir flushTime maxFiles maxFileSize s =
     (let logDir1 = (if logDir \<noteq> [] then normalizePath logDir else applicationDirPath p @ ''/'')
      in (case ensureDirectoryWritable env s of
            (writable, s1) \<Rightarrow>
              if \<not> writable
              then Some (False, callErrorHandler ''Log directory is not writable'' s1)
              else
                (case rotateLogFiles p env (m_logFileName s1) (s1\<lparr>m_logDir := logDir1\<rparr>) of
                   None \<Rightarrow> None
                 | Some (ok, logFileName, s2) \<Rightarrow>
                     (let s3 = s2\<lparr>m_logFileName := logFileName\<rparr>
                      in if \<not> ok then Some (False, s3)
                         else
                           (let s4 = s3\<lparr>m_maxLogFiles := (if maxFiles < 2 then 2 else maxFiles),
                                       m_maxLogFileSize :=
                                         (if maxFileSize < 100 * 1024 then 100 * 1024
                                          else maxFileSize)\<rparr>;
                                s5 = (if 1000 \<le> flushTime
                                      then s4\<lparr>m_logBufferEnabled := True,
                                              m_logBufferTimerInterval := flushTime\<rparr>
                                      else s4\<lparr>m_logBufferEnabled := False\<rparr>);
                                s6 = s5\<lparr>messageHandlerInstalled := True\<rparr>
                            in Some (True, if m_logBufferEnabled s6 then emit TimerStart s6
                                           else s6))))))"

text \<open>
  The state the static initialisers give, over a directory with the files \<open>fs\<close>
  (\<open>QDir()\<close> is the current directory, with the path \<open>.\<close>).
\<close>

definition initialState :: "(string \<times> string) list \<Rightarrow> QCustomLog" where
  "initialState fs =
     \<lparr>m_errorHandler = False, m_cleanLogCategory = [], m_cleanLogCategoryIsSet = False,
      m_cleanToFile = True, m_minOutLevel = QtDebugMsg, m_minOutFileLevel = QtDebugMsg,
      m_logDir = ''.'', m_logFileName = [], m_maxLogFiles = 10,
      m_maxLogFileSize = 10 * 1024 * 1024, m_logBufferTimerInterval = 0, m_logBuffer = [],
      m_maxBufferMessages = 0, m_logBufferEnabled = False, m_logBufferFlushTime = 0,
      m_logRotationTime = 0, firstTime = True, messageHandlerInstalled = False,
      files = fs, events = []\<rparr>"

subsection \<open>Notions used in the statements\<close>

text \<open>
  The bytes a list of lines occupies in the file, the number of observer calls made so
  far, and the lines several producers add one after the other.
\<close>

definition linesBytes :: "string list \<Rightarrow> string" where
  "linesBytes ls = concat (map (\<lambda>l. l @ eol) ls)"

fun isSendLog :: "event \<Rightarrow> bool" where
  "isSendLog (SendLog t c x) = True"
| "isSendLog e = False"

definition sendLogCalls :: "QCustomLog \<Rightarrow> nat" where
  "sendLogCalls s = length (filter isSendLog (events s))"

definition enqueueAll :: "string list \<Rightarrow> QCustomLog \<Rightarrow> QCustomLog" where
  "enqueueAll ls s = foldl (\<lambda>s' l. enqueue l s') s ls"

text \<open>
  \<open>ioStep s s'\<close>: \<open>s'\<close> differs from \<open>s\<close> at most in the directory, in the rotation
  average and its first-call flag, and by events added at the end, none of them an
  observer call.
\<close>

definition ioStep :: "QCustomLog \<Rightarrow> QCustomLog \<Rightarrow> bool" where
  "ioStep s s' =
     (\<exists>fs es rt ft. s' = s\<lparr>m_logRotationTime := rt, firstTime := ft, files := fs,
                              events := events s @ es\<rparr>
        \<and> list_all (\<lambda>e. \<not> isSendLog e) es)"

text \<open>
  The message of a failed creation of the main file, and \<open>touchFailed p s s'\<close>: from \<open>s\<close>
  the rotation went on by file operations only, then the creation of the main file
  failed and was reported, which left \<open>s'\<close>.
\<close>

definition creationError :: "program \<Rightarrow> string" where
  "creationError p = ''Log file '' @ dq @ mainLogFileName p @ dq @ '' creation error''"

definition touchFailed :: "program \<Rightarrow> QCustomLog \<Rightarrow> QCustomLog \<Rightarrow> bool" where
  "touchFailed p s s' =
     (\<exists>s3. ioStep s s3
        \<and> s' = callErrorHandler (creationError p) (emit (FileCreate (mainLogFileName p) False) s3))"

text \<open>
  The events of a flush that gets through: the opening, one write per line, the flush
  when forced, the close; then the diagnostic line of a debug build. \<open>unhindered\<close> is
  that nothing stands in the way of writing the lines \<open>ls\<close>: the directory is set,
  \<open>m_maxLogFiles\<close> is not zero, the main file can be created and opened, every line
  can be written.
\<close>

definition writeEvents :: "string \<Rightarrow> bool \<Rightarrow> string list \<Rightarrow> event list" where
  "writeEvents n force ls =
     FileOpen n True # map (\<lambda>l. FileWrite n (l @ eol) True) ls
       @ (if force then [FileFlush n] else []) @ [FileClose n]"

definition flushDiagnostics :: "program \<Rightarrow> env \<Rightarrow> QCustomLog \<Rightarrow> event list" where
  "flushDiagnostics p env s =
     (if \<not> NDEBUG p \<and> m_minOutLevel s = QtDebugMsg \<and> \<not> m_cleanLogCategoryIsSet s
      then [FlushDiagnostic (flushElapsed env)
              (flushTimeEMA (m_logBufferFlushTime s) (flushElapsed env))]
      else [])"

definition unhindered :: "program \<Rightarrow> env \<Rightarrow> QCustomLog \<Rightarrow> string list \<Rightarrow> bool" where
  "unhindered p env s ls =
     (m_logDir s \<noteq> [] \<and> 0 < m_maxLogFiles s \<and> createOk env (mainLogFileName p)
      \<and> openOk env (mainLogFileName p) \<and> list_all (writeOk env) ls)"

text \<open>
  The states the program can reach: from the static initialisers, by the setters, by
  \<open>initLogging\<close>, by the handler, by the flush of the timer, and by changes that others
  make to the directory.
\<close>

inductive reachable :: "program \<Rightarrow> QCustomLog \<Rightarrow> bool" for p :: program where
  start: "reachable p (initialState fs)"
| directory: "reachable p s \<Longrightarrow> reachable p (s\<lparr>files := fs\<rparr>)"
| errorHandler: "reachable p s \<Longrightarrow> reachable p (s\<lparr>m_errorHandler := h\<rparr>)"
| minLevels: "reachable p s \<Longrightarrow> reachable p (setMinLevels outLevel fileLevel s)"
| cleanCategory: "reachable p s \<Longrightarrow> reachable p (setCleanLogCategory c writeToFile s)"
| init: "reachable p s \<Longrightarrow>
         initLogging p env logDir flushTime maxFiles maxFileSize s = Some (ok, s') \<Longrightarrow>
         reachable p s'"
| message: "reachable p s \<Longrightarrow> messageHandler p env t m s = Some s' \<Longrightarrow> reachable p s'"
| flush: "reachable p s \<Longrightarrow> flushBuffer p env False s = Some s' \<Longrightarrow> reachable p s'"

text \<open>
  The range of the two averages: a sample is at most \<open>2 ^ 63\<close> nanoseconds, less than
  \<open>2 ^ 34\<close> seconds.
\<close>

definition averagesBounded :: "QCustomLog \<Rightarrow> bool" where
  "averagesBounded s =
     (\<bar>m_logBufferFlushTime s\<bar> \<le> 2 ^ 35 \<and> \<bar>m_logRotationTime s\<bar> \<le> 2 ^ 35)"

subsection \<open>Concrete runs\<close>

text \<open>
  A release build of an application named \<open>app\<close>; an environment in which every
  operation succeeds and one in which no file can be created; the state of a process
  that has initialised logging without buffering, has an error handler installed, and
  holds \<open>buffer\<close> over the directory \<open>fs\<close>.
\<close>

definition releaseBuild :: program where
  "releaseBuild = \<lparr>applicationName = ''app'', applicationDirPath = ''/opt/app'', NDEBUG = True\<rparr>"

definition noFailure :: env where
  "noFailure = \<lparr>directoryOk = True, removeOk = (\<lambda>n. True), renameOk = (\<lambda>a b. True),
     createOk = (\<lambda>n. True), openOk = (\<lambda>n. True), openError = (\<lambda>n. []),
     writeOk = (\<lambda>l. True), meanwhile = [],
     flushNsecsElapsed = 1000000000, rotateNsecsElapsed = 1000000000\<rparr>"

definition createFails :: env where
  "createFails = noFailure\<lparr>createOk := (\<lambda>n. False)\<rparr>"

definition running :: "(string \<times> string) list \<Rightarrow> string list \<Rightarrow> QCustomLog" where
  "running fs buffer =
     (initialState fs)\<lparr>m_errorHandler := True, m_logDir := ''/var/log/app/'',
        m_logFileName := ''app_0.log'', m_logBuffer := buffer, firstTime := False,
        messageHandlerInstalled := True\<rparr>"

definition oneFile :: "(string \<times> string) list" where
  "oneFile = [(''app_0.log'', ''old'' @ eol)]"

text \<open>
  The states of a run in which the first flush cannot create the main file: after the
  failed rotation, after the failed flush, and after the rotation of the next flush.
\<close>

definition createFailed :: QCustomLog where
  "createFailed =
     (running [] [])\<lparr>events := [FileCreate ''app_0.log'' False,
        ErrorReport (creationError releaseBuild)]\<rparr>"



text \<open>
  A main file that has reached the smallest size limit \<open>initLogging\<close> accepts, the state
  of a process about to rotate it, and the state after a rotation that renamed it and
  then could not create the new main file.
\<close>

definition fullFile :: "(string \<times> string) list" where
  "fullFile = [(''app_0.log'', replicate 102400 (CHR ''x''))]"

definition rotating :: QCustomLog where
  "rotating = (running fullFile [])\<lparr>m_maxLogFileSize := 102400\<rparr>"

definition rotatedOut :: QCustomLog where
  "rotatedOut =
     rotating\<lparr>files := [(''app_1.log'', replicate 102400 (CHR ''x''))],
              events := [FileRename ''app_0.log'' ''app_1.log'' True,
                         FileCreate ''app_0.log'' False,
                         ErrorReport (creationError releaseBuild)]\<rparr>"

text \<open>
  Records handed to the handler, a state in which the category \<open>CI\<close> is the clean
  category and must not reach the file, a state whose minimum file level is Warning,
  and an environment in which a flush takes the given number of nanoseconds.
\<close>

definition linkDown :: logMessage where
  "linkDown = \<lparr>category = ''net'', msg = ''link down'', timestamp = ''[12:00:00]'',
     sourceFile = ''net.cpp'', sourceFunction = ''poll()''\<rparr>"

definition secret :: logMessage where
  "secret = \<lparr>category = ''CI'', msg = ''token=abc'', timestamp = ''[12:00:00]'',
     sourceFile = ''ci.cpp'', sourceFunction = ''run()''\<rparr>"

definition cleanOutput :: QCustomLog where
  "cleanOutput = setCleanLogCategory ''CI'' False (running oneFile [])"

definition debugRecord :: logMessage where
  "debugRecord = \<lparr>category = ''net'', msg = ''polling'', timestamp = ''[12:00:00]'',
     sourceFile = ''net.cpp'', sourceFunction = ''poll()''\<rparr>"

definition warningsOnly :: QCustomLog where
  "warningsOnly = setMinLevels QtDebugMsg QtWarningMsg (running oneFile [])"

definition took :: "64 word \<Rightarrow> env" where
  "took nsecsElapsed = noFailure\<lparr>flushNsecsElapsed := nsecsElapsed\<rparr>"

text \<open>
  A directory whose files are not numbered from zero, a directory of three files, and
  the states \<open>initLogging\<close> goes through over the latter when called with at most two
  files: after the probe of the directory, and at its end.
\<close>

definition gapsDirectory :: "(string \<times> string) list" where
  "gapsDirectory = [(''app_2.log'', ''a''), (''app_5.log'', ''b''), (''app_6.log'', ''c'')]"

definition threeFiles :: "(string \<times> string) list" where
  "threeFiles = [(''app_0.log'', ''a''), (''app_1.log'', ''b''), (''app_2.log'', ''c'')]"

definition initialised :: QCustomLog where
  "initialised =
     (initialState threeFiles)\<lparr>m_logDir := ''/var/log/app/'', m_logFileName := ''app_0.log'',
        m_maxLogFiles := 2, m_maxLogFileSize := 102400, m_logBufferEnabled := False,
        firstTime := False, messageHandlerInstalled := True,
        events := [FileCreate ''test.tmp'' True, FileRemove ''test.tmp'' True]\<rparr>"

definition probed :: QCustomLog where
  "probed = (initialState threeFiles)
              \<lparr>m_logDir := ''/var/log/app/'',
                events := [FileCreate ''test.tmp'' True, FileRemove ''test.tmp'' True]\<rparr>"

section \<open>Properties\<close>

subsection \<open>Level policy\<close>

text \<open>
  C2: for every pair of the five levels, \<open>levelGreaterOrEqual level minLevel\<close> is the
  entry of the threshold table of section 4.1, and that entry is true exactly when
  \<open>level\<close> is at least \<open>minLevel\<close> in the order Debug < Info < Warning < Critical < Fatal;
  with \<open>minLevel\<close> Critical only Critical and Fatal pass.
\<close>

theorem levelGreaterOrEqual_table:
  "levelGreaterOrEqual level minLevel = thresholdTable minLevel level
   \<and> levelGreaterOrEqual level minLevel = (severity minLevel \<le> severity level)
   \<and> (levelGreaterOrEqual level QtCriticalMsg = (level = QtCriticalMsg \<or> level = QtFatalMsg))"
  by (cases level; cases minLevel; simp)

subsection \<open>Rounding\<close>

text \<open>
  The exponent brackets the number, and rounding is off by at most half a unit in the
  last place: relative to the number by at most \<open>2 ^ 24\<close> to one in single precision, or
  by half the spacing of the subnormal numbers. A rounded number never passes a number
  of the format that bounds the exact one.
\<close>

lemma exponent_lower:
  assumes "x \<noteq> 0"
  shows "2 powi exponent x \<le> \<bar>x\<bar>"
proof (cases "1 \<le> \<bar>x\<bar>")
  case True
  define n where "n = \<lfloor>\<bar>x\<bar>\<rfloor>"
  have n: "0 < n" using True by (simp add: n_def)
  from bitlen_bounds[OF n] have b: "2 ^ nat (bitlen n - 1) \<le> n" by simp
  have e: "exponent x = bitlen n - 1" using True by (simp add: exponent_def n_def)
  have p: "0 \<le> bitlen n - 1" using n by (simp add: bitlen_alt_def)
  have "(2::real) powi (bitlen n - 1) = 2 ^ nat (bitlen n - 1)"
    using p by (simp add: power_int_def)
  also have "\<dots> = of_int (2 ^ nat (bitlen n - 1))" by simp
  also have "\<dots> \<le> of_int n" using b by (simp only: of_int_le_iff)
  also have "\<dots> \<le> \<bar>x\<bar>" by (simp add: n_def)
  finally show ?thesis by (simp add: e)
next
  case False
  define a where "a = \<bar>x\<bar>"
  have a: "0 < a" "a < 1" using False assms by (simp_all add: a_def)
  define m where "m = \<lceil>1 / a\<rceil> - 1"
  have "1 < 1 / a" using a by simp
  then have "2 \<le> \<lceil>1 / a\<rceil>" by linarith
  then have m: "0 < m" by (simp add: m_def)
  from bitlen_bounds[OF m] have b: "m < 2 ^ nat (bitlen m)" by simp
  have e: "exponent x = - bitlen m" using False by (simp add: exponent_def m_def a_def)
  have k: "0 \<le> bitlen m" by (rule bitlen_nonneg)
  have "1 / a \<le> of_int \<lceil>1 / a\<rceil>" by simp
  also have "\<dots> = of_int (m + 1)" by (simp add: m_def)
  also have "\<dots> \<le> of_int (2 ^ nat (bitlen m))"
  proof -
    from b have "m + 1 \<le> 2 ^ nat (bitlen m)" by simp
    then show ?thesis by (simp only: of_int_le_iff)
  qed
  finally have "1 / a \<le> 2 ^ nat (bitlen m)" by simp
  then have "1 / 2 ^ nat (bitlen m) \<le> a" using a
    by (simp add: field_simps)
  moreover have "(2::real) powi (- bitlen m) = 1 / 2 ^ nat (bitlen m)"
    using k by (simp add: power_int_def field_simps)
  ultimately show ?thesis by (simp add: e a_def)
qed

lemma exponent_upper:
  assumes "x \<noteq> 0"
  shows "\<bar>x\<bar> < 2 powi (exponent x + 1)"
proof (cases "1 \<le> \<bar>x\<bar>")
  case True
  define n where "n = \<lfloor>\<bar>x\<bar>\<rfloor>"
  have n: "0 < n" using True by (simp add: n_def)
  from bitlen_bounds[OF n] have b: "n < 2 ^ nat (bitlen n)" by simp
  have e: "exponent x = bitlen n - 1" using True by (simp add: exponent_def n_def)
  have p: "0 \<le> bitlen n" by (rule bitlen_nonneg)
  have "\<bar>x\<bar> < of_int (n + 1)" by (simp add: n_def)
  also have "\<dots> \<le> of_int (2 ^ nat (bitlen n))"
  proof -
    from b have "n + 1 \<le> 2 ^ nat (bitlen n)" by simp
    then show ?thesis by (simp only: of_int_le_iff)
  qed
  also have "\<dots> = 2 ^ nat (bitlen n)" by simp
  also have "\<dots> = (2::real) powi (bitlen n)" using p by (simp add: power_int_def)
  finally show ?thesis by (simp add: e)
next
  case False
  define a where "a = \<bar>x\<bar>"
  have a: "0 < a" "a < 1" using False assms by (simp_all add: a_def)
  define m where "m = \<lceil>1 / a\<rceil> - 1"
  have "1 < 1 / a" using a by simp
  then have "2 \<le> \<lceil>1 / a\<rceil>" by linarith
  then have m: "0 < m" by (simp add: m_def)
  from bitlen_bounds[OF m] have b: "2 ^ nat (bitlen m - 1) \<le> m" by simp
  have e: "exponent x = - bitlen m" using False by (simp add: exponent_def m_def a_def)
  have k: "1 \<le> bitlen m" using m by (simp add: bitlen_alt_def)
  have "(2::real) ^ nat (bitlen m - 1) = of_int (2 ^ nat (bitlen m - 1))" by simp
  also have "\<dots> \<le> of_int m" using b by (simp only: of_int_le_iff)
  also have "\<dots> < 1 / a" unfolding m_def by linarith
  finally have "(2::real) ^ nat (bitlen m - 1) < 1 / a" .
  then have "a < 1 / 2 ^ nat (bitlen m - 1)" using a by (simp add: field_simps)
  moreover have "(2::real) powi (- bitlen m + 1) = 1 / 2 ^ nat (bitlen m - 1)"
    using k by (simp add: power_int_def field_simps nat_diff_distrib)
  ultimately show ?thesis by (simp add: e a_def)
qed

lemma roundEven_error: "\<bar>of_int (roundEven y) - y\<bar> \<le> 1 / 2"
  unfolding roundEven_def Let_def by (auto; linarith)

lemma roundEven_le: "y \<le> of_int G \<Longrightarrow> roundEven y \<le> G"
  unfolding roundEven_def Let_def by (auto simp: floor_le_iff; linarith)

lemma roundEven_ge: "of_int G \<le> y \<Longrightarrow> G \<le> roundEven y"
  unfolding roundEven_def Let_def by (auto simp: le_floor_iff; linarith)

lemma roundEven_of_int: "roundEven (of_int n) = n"
  by (simp add: roundEven_def)


lemma roundEven_minus: "roundEven (- y) = - roundEven y"
proof -
  have "\<lfloor>- y\<rfloor> = - \<lceil>y\<rceil>" by (simp add: ceiling_def)
  show ?thesis
  proof (cases "y = of_int \<lfloor>y\<rfloor>")
    case True
    then obtain n where "y = of_int n" ..
    then show ?thesis by (simp add: roundEven_def flip: of_int_minus)
  next
    case False
    then have c: "\<lceil>y\<rceil> = \<lfloor>y\<rfloor> + 1" by (simp add: ceiling_altdef)
    have f: "\<lfloor>- y\<rfloor> = - \<lfloor>y\<rfloor> - 1" using c by (simp add: ceiling_def)
    show ?thesis unfolding roundEven_def Let_def f by (auto; linarith?)
  qed
qed

lemma pow2_pos: "0 < (2::real) powi q"
  by simp

lemma roundTo_zero: "roundTo prec emin 0 = 0"
  by (simp add: roundTo_def roundEven_def)

lemma exponent_minus: "exponent (- x) = exponent x"
  by (simp add: exponent_def)

lemma roundTo_minus: "roundTo prec emin (- x) = - roundTo prec emin x"
  by (simp add: roundTo_def exponent_minus roundEven_minus Let_def)

lemma roundTo_error:
  "\<bar>roundTo prec emin x - x\<bar> \<le> 2 powi (max (exponent x) emin - (int prec - 1)) / 2"
proof -
  define P where "P = (2::real) powi (max (exponent x) emin - (int prec - 1))"
  have P: "0 < P" by (simp add: P_def pow2_pos)
  define n where "n = roundEven (x / P)"
  have r: "\<bar>of_int n - x / P\<bar> \<le> 1 / 2" unfolding n_def by (rule roundEven_error)
  have eq: "(of_int n - x / P) * P = of_int n * P - x"
    using P by (simp add: field_simps)
  have "\<bar>of_int n * P - x\<bar> = \<bar>of_int n - x / P\<bar> * \<bar>P\<bar>"
    unfolding eq[symmetric] by (rule abs_mult)
  also have "\<dots> = \<bar>of_int n - x / P\<bar> * P" using P by simp
  also have "\<dots> \<le> 1 / 2 * P" using r P by (simp only: mult_le_cancel_right_pos)
  finally have "\<bar>of_int n * P - x\<bar> \<le> P / 2" by simp
  then show ?thesis by (simp add: roundTo_def Let_def n_def P_def)
qed

lemma roundTo_error_bound:
  "\<bar>roundTo prec emin x - x\<bar> \<le> \<bar>x\<bar> / 2 ^ prec + 2 powi (emin - int prec)"
proof (cases "x = 0")
  case True
  then show ?thesis by (simp add: roundTo_zero pow2_pos less_imp_le)
next
  case False
  show ?thesis
  proof (cases "emin \<le> exponent x")
    case True
    then have "max (exponent x) emin - (int prec - 1) = exponent x - int prec + 1" by simp
    from roundTo_error[of prec emin x, unfolded this]
    have "\<bar>roundTo prec emin x - x\<bar> \<le> 2 powi (exponent x - int prec + 1) / 2" .
    also have "(2::real) powi (exponent x - int prec + 1) / 2 = 2 powi exponent x / 2 ^ prec"
      by (simp add: power_int_diff power_int_add)
    also have "\<dots> \<le> \<bar>x\<bar> / 2 ^ prec"
      using exponent_lower[OF False] by (simp add: divide_right_mono)
    also have "\<dots> \<le> \<bar>x\<bar> / 2 ^ prec + 2 powi (emin - int prec)"
      using pow2_pos[of "emin - int prec"] by simp
    finally show ?thesis .
  next
    case False
    then have "max (exponent x) emin - (int prec - 1) = emin - int prec + 1" by simp
    from roundTo_error[of prec emin x, unfolded this]
    have "\<bar>roundTo prec emin x - x\<bar> \<le> 2 powi (emin - int prec + 1) / 2" .
    also have "(2::real) powi (emin - int prec + 1) / 2 = 2 powi (emin - int prec)"
      by (simp add: power_int_add)
    also have "\<dots> \<le> \<bar>x\<bar> / 2 ^ prec + 2 powi (emin - int prec)" by simp
    finally show ?thesis .
  qed
qed

lemma toFloat_error: "\<bar>toFloat x - x\<bar> \<le> \<bar>x\<bar> / 2 ^ 24 + 1 / 2 ^ 150"
proof -
  have "(2::real) powi (- 126 - int 24) = 1 / 2 ^ 150"
    by (simp add: power_int_def field_simps)
  with roundTo_error_bound[of 24 "- 126" x] show ?thesis by (simp add: toFloat_def)
qed

lemma toDouble_error: "\<bar>toDouble x - x\<bar> \<le> \<bar>x\<bar> / 2 ^ 53 + 1 / 2 ^ 1075"
proof -
  have "(2::real) powi (- 1022 - int 53) = 1 / 2 ^ 1075"
    by (simp add: power_int_def field_simps)
  with roundTo_error_bound[of 53 "- 1022" x] show ?thesis by (simp add: toDouble_def)
qed


lemma roundTo_le:
  assumes xg: "x \<le> g" and g: "g = of_int m * 2 powi j" and m: "\<bar>m\<bar> \<le> 2 ^ prec"
    and j: "emin - (int prec - 1) \<le> j" and prec: "0 < prec"
  shows "roundTo prec emin x \<le> g"
proof (cases "x = 0")
  case True
  with xg show ?thesis by (simp add: roundTo_zero)
next
  case x0: False
  define q where "q = max (exponent x) emin - (int prec - 1)"
  define P where "P = (2::real) powi q"
  define n where "n = roundEven (x / P)"
  have P: "0 < P" by (simp add: P_def)
  have r: "roundTo prec emin x = of_int n * P"
    by (simp add: roundTo_def Let_def n_def P_def q_def)
  show ?thesis
  proof (cases "q \<le> j")
    case True
    define G where "G = m * 2 ^ nat (j - q)"
    have "(2::real) powi j = 2 powi (j - q) * 2 powi q"
      by (simp flip: power_int_add)
    also have "(2::real) powi (j - q) = 2 ^ nat (j - q)" using True by (simp add: power_int_def)
    finally have gG: "g = of_int G * P" by (simp add: g G_def P_def)
    from xg gG P have "x / P \<le> of_int G" by (simp add: field_simps)
    then have "n \<le> G" unfolding n_def by (rule roundEven_le)
    then have "of_int n * P \<le> of_int G * P" using P by simp
    then show ?thesis by (simp add: r gG)
  next
    case False
    then have jq: "j \<le> q - 1" by simp
    with j have e: "q = exponent x - (int prec - 1)" by (auto simp: q_def max_def split: if_splits)
    define H where "H = (2::real) ^ (prec - 1)"
    have H: "0 < H" by (simp add: H_def)
    have "(2::real) powi exponent x = 2 powi (int (prec - 1)) * 2 powi q"
      using prec by (simp add: e flip: power_int_add)
    then have ex: "(2::real) powi exponent x = H * P" by (simp add: H_def P_def)
    with exponent_lower[OF x0] have lower: "H * P \<le> \<bar>x\<bar>" by simp
    have "\<bar>g\<bar> = of_int \<bar>m\<bar> * 2 powi j" by (simp add: g abs_mult)
    also have "\<dots> \<le> of_int (2 ^ prec) * 2 powi j"
      using m by (intro mult_right_mono) (simp_all only: of_int_le_iff, simp)
    also have "\<dots> \<le> of_int (2 ^ prec) * 2 powi (q - 1)"
      using jq by (intro mult_left_mono power_int_increasing) simp_all
    also have "(2::real) powi (q - 1) = P / 2" by (simp add: P_def power_int_diff)
    also have "of_int (2 ^ prec) * (P / 2) = H * P"
      using prec by (cases prec) (simp_all add: H_def)
    finally have upper: "\<bar>g\<bar> \<le> H * P" .
    have Hi: "H = of_int (2 ^ (prec - 1))" by (simp add: H_def)
    show ?thesis
    proof (cases "0 < x")
      case True
      with lower upper xg have "x = H * P" by linarith
      then have "x / P = of_int (2 ^ (prec - 1))" using P by (simp add: Hi)
      then have "n = 2 ^ (prec - 1)" unfolding n_def by (simp only: roundEven_of_int)
      then have "of_int n * P = x" using \<open>x = H * P\<close> by (simp add: Hi)
      with xg show ?thesis by (simp add: r)
    next
      case False
      with x0 lower have "x \<le> - (H * P)" by linarith
      then have "x / P \<le> - H" using P by (simp add: field_simps)
      then have "x / P \<le> of_int (- (2 ^ (prec - 1)))" by (simp add: Hi)
      then have "n \<le> - (2 ^ (prec - 1))" unfolding n_def by (rule roundEven_le)
      then have "of_int n \<le> (of_int (- (2 ^ (prec - 1))) :: real)" by (simp only: of_int_le_iff)
      then have "of_int n \<le> - H" by (simp add: Hi)
      then have "of_int n * P \<le> - H * P" using P by (simp only: mult_le_cancel_right_pos)
      with upper show ?thesis by (simp add: r)
    qed
  qed
qed

lemma roundTo_ge:
  assumes xg: "g \<le> x" and g: "g = of_int m * 2 powi j" and m: "\<bar>m\<bar> \<le> 2 ^ prec"
    and j: "emin - (int prec - 1) \<le> j" and prec: "0 < prec"
  shows "g \<le> roundTo prec emin x"
proof -
  have "roundTo prec emin (- x) \<le> - g"
  proof (rule roundTo_le[OF _ _ _ j prec])
    show "- x \<le> - g" using xg by simp
    show "- g = of_int (- m) * 2 powi j" by (simp add: g)
    show "\<bar>- m\<bar> \<le> 2 ^ prec" using m by simp
  qed
  then show ?thesis by (simp add: roundTo_minus)
qed

lemma toFloat_le:
  "x \<le> of_int m * 2 powi j \<Longrightarrow> \<bar>m\<bar> \<le> 2 ^ 24 \<Longrightarrow> - 149 \<le> j \<Longrightarrow> toFloat x \<le> of_int m * 2 powi j"
  unfolding toFloat_def by (rule roundTo_le[OF _ refl]) simp_all

lemma toFloat_ge:
  "of_int m * 2 powi j \<le> x \<Longrightarrow> \<bar>m\<bar> \<le> 2 ^ 24 \<Longrightarrow> - 149 \<le> j \<Longrightarrow> of_int m * 2 powi j \<le> toFloat x"
  unfolding toFloat_def by (rule roundTo_ge[OF _ refl]) simp_all

lemma toDouble_le:
  "x \<le> of_int m * 2 powi j \<Longrightarrow> \<bar>m\<bar> \<le> 2 ^ 53 \<Longrightarrow> - 1074 \<le> j \<Longrightarrow> toDouble x \<le> of_int m * 2 powi j"
  unfolding toDouble_def by (rule roundTo_le[OF _ refl]) simp_all

lemma toDouble_ge:
  "of_int m * 2 powi j \<le> x \<Longrightarrow> \<bar>m\<bar> \<le> 2 ^ 53 \<Longrightarrow> - 1074 \<le> j \<Longrightarrow> of_int m * 2 powi j \<le> toDouble x"
  unfolding toDouble_def by (rule roundTo_ge[OF _ refl]) simp_all


lemmas float_defs = toFloat_def toDouble_def roundTo_def exponent_def roundEven_def Let_def
  compute_bitlen

lemma float_constants:
  "toFloat (9 / 10) = 15099494 / 16777216" "toFloat (1 / 10) = 13421773 / 134217728"
  "toFloat (4 / 5) = 13421773 / 16777216" "toFloat (1 / 5) = 13421773 / 67108864"
  by (simp_all add: float_defs)

lemma elapsedSeconds_values:
  "elapsedSeconds 0 = 0" "elapsedSeconds 1000000000 = 1" "elapsedSeconds 2000000000 = 2"
  "elapsedSeconds 4000000000 = 4"
  by (simp_all add: elapsedSeconds_def float_defs)

text \<open>
  Ties go to the even significand, below the smallest normal number the spacing is
  \<open>1 / 2 ^ 149\<close>, and a count of nanoseconds that \<open>float\<close> cannot hold is rounded before
  the division.
\<close>

lemma rounding_examples:
  "toFloat 16777217 = 16777216" "toFloat 16777219 = 16777220" "toFloat (- 16777217) = - 16777216"
  "toFloat (1 / 3) = 11184811 / 33554432"
  "toFloat (1 / 2 ^ 150) = 0" "toFloat (3 / 2 ^ 150) = 1 / 2 ^ 148"
  "toDouble (1 / 10) = 3602879701896397 / 36028797018963968"
  "elapsedSeconds 123456789 = 8285045 / 67108864"
  "elapsedSeconds 1 = 9007199 / 9007199254740992"
  by (simp_all add: elapsedSeconds_def float_defs)

lemma two_then_four:
  "flushTimeEMA 2 4 = 9227469 / 4194304"
  by (simp add: flushTimeEMA_def float_constants) (simp add: float_defs)

lemma elapsedSeconds_bounded: "\<bar>elapsedSeconds n\<bar> \<le> 2 ^ 34"
proof -
  define x :: real where "x = of_int (sint n)"
  have "- (2 ^ 63) \<le> sint n" "sint n < 2 ^ 63"
    using sint_ge[of n] sint_lt[of n] by simp_all
  then have "of_int (- (2 ^ 63)) \<le> x" "x \<le> of_int (2 ^ 63)"
    unfolding x_def by (simp_all only: of_int_le_iff)
  then have x: "of_int (- 1) * 2 powi 63 \<le> x" "x \<le> of_int 1 * 2 powi 63" by simp_all
  have f: "of_int (- 1) * 2 powi 63 \<le> toFloat x" "toFloat x \<le> of_int 1 * 2 powi 63"
    by (rule toFloat_ge[OF x(1)], simp, simp) (rule toFloat_le[OF x(2)], simp, simp)
  define d where "d = toFloat x / 1000000000"
  from f have d: "of_int (- 1) * 2 powi 34 \<le> d" "d \<le> of_int 1 * 2 powi 34"
    by (simp_all add: d_def)
  have dd: "of_int (- 1) * 2 powi 34 \<le> toDouble d" "toDouble d \<le> of_int 1 * 2 powi 34"
    by (rule toDouble_ge[OF d(1)], simp, simp) (rule toDouble_le[OF d(2)], simp, simp)
  have "of_int (- 1) * 2 powi 34 \<le> toFloat (toDouble d)" "toFloat (toDouble d) \<le> of_int 1 * 2 powi 34"
    by (rule toFloat_ge[OF dd(1)], simp, simp) (rule toFloat_le[OF dd(2)], simp, simp)
  then show ?thesis by (simp add: elapsedSeconds_def d_def x_def)
qed


lemma blend_bounded:
  assumes c: "c = of_int mc * 2 powi jc" "0 \<le> mc" "mc \<le> 2 ^ 24" "- 184 \<le> jc"
    and d: "d = of_int md * 2 powi jd" "0 \<le> md" "md \<le> 2 ^ 24" "- 183 \<le> jd"
    and s: "c + d / 2 \<le> 1"
    and a: "0 < a" "a \<le> 2 ^ 35" and b: "\<bar>b\<bar> \<le> 2 ^ 34"
  shows "\<bar>toFloat (toFloat (a * c) + toFloat (b * d))\<bar> \<le> 2 ^ 35"
proof -
  have c0: "0 \<le> c" and d0: "0 \<le> d" using c d by simp_all
  have ec: "2 ^ 35 * c = of_int mc * 2 powi (jc + 35)"
    by (simp add: c(1) power_int_add)
  have ed: "2 ^ 34 * d = of_int md * 2 powi (jd + 34)"
    by (simp add: d(1) power_int_add)
  have "a * c \<le> 2 ^ 35 * c" using a c0 by (simp add: mult_right_mono)
  then have h1: "a * c \<le> of_int mc * 2 powi (jc + 35)" by (simp only: ec)
  have "toFloat (a * c) \<le> of_int mc * 2 powi (jc + 35)"
    by (rule toFloat_le[OF h1]) (use c in simp_all)
  then have p1u: "toFloat (a * c) \<le> 2 ^ 35 * c" by (simp only: ec)
  have "of_int 0 * 2 powi 0 \<le> a * c" using a c0 by simp
  then have "of_int 0 * 2 powi 0 \<le> toFloat (a * c)" by (rule toFloat_ge) simp_all
  then have p1l: "0 \<le> toFloat (a * c)" by simp
  have "b * d \<le> 2 ^ 34 * d" using b d0 by (intro mult_right_mono) simp_all
  then have h2: "b * d \<le> of_int md * 2 powi (jd + 34)" by (simp only: ed)
  have "toFloat (b * d) \<le> of_int md * 2 powi (jd + 34)"
    by (rule toFloat_le[OF h2]) (use d in simp_all)
  then have p2u: "toFloat (b * d) \<le> 2 ^ 34 * d" by (simp only: ed)
  have "- (2 ^ 34) * d \<le> b * d" using b d0 by (intro mult_right_mono) simp_all
  moreover have "- (2 ^ 34) * d = of_int (- md) * 2 powi (jd + 34)"
    using ed by simp
  ultimately have h3: "of_int (- md) * 2 powi (jd + 34) \<le> b * d" by simp
  have "of_int (- md) * 2 powi (jd + 34) \<le> toFloat (b * d)"
    by (rule toFloat_ge[OF h3]) (use d in simp_all)
  then have p2l: "- (2 ^ 34 * d) \<le> toFloat (b * d)" using ed by simp
  have d1: "d \<le> 2" using s c0 by simp
  have "toFloat (a * c) + toFloat (b * d) \<le> 2 ^ 35 * (c + d / 2)" using p1u p2u by simp
  also have "\<dots> \<le> 2 ^ 35 * 1" using s by (intro mult_left_mono) simp_all
  finally have h4: "toFloat (a * c) + toFloat (b * d) \<le> of_int 1 * 2 powi 35" by simp
  have u: "toFloat (toFloat (a * c) + toFloat (b * d)) \<le> of_int 1 * 2 powi 35"
    by (rule toFloat_le[OF h4]) simp_all
  have "- (2 ^ 34 * d) \<le> toFloat (a * c) + toFloat (b * d)" using p1l p2l by simp
  moreover have "- (2 ^ 35) \<le> - (2 ^ 34 * d)" using d1 by simp
  ultimately have h5: "of_int (- 1) * 2 powi 35 \<le> toFloat (a * c) + toFloat (b * d)" by simp
  have l: "of_int (- 1) * 2 powi 35 \<le> toFloat (toFloat (a * c) + toFloat (b * d))"
    by (rule toFloat_ge[OF h5]) simp_all
  from u l show ?thesis by simp
qed

lemma flushTimeEMA_bounded:
  assumes "\<bar>elapsedAvg\<bar> \<le> 2 ^ 35" and "\<bar>elapsed\<bar> \<le> 2 ^ 34"
  shows "\<bar>flushTimeEMA elapsedAvg elapsed\<bar> \<le> 2 ^ 35"
proof (cases "elapsedAvg \<le> 0")
  case True
  then show ?thesis using assms(2) by (simp add: flushTimeEMA_def)
next
  case False
  then have a: "0 < elapsedAvg" "elapsedAvg \<le> 2 ^ 35" using assms(1) by simp_all
  have "\<bar>toFloat (toFloat (elapsedAvg * toFloat (9 / 10)) + toFloat (elapsed * toFloat (1 / 10)))\<bar>
        \<le> 2 ^ 35"
    by (rule blend_bounded[where mc = 15099494 and jc = "- 24" and md = 13421773 and jd = "- 27",
          OF _ _ _ _ _ _ _ _ _ a assms(2)])
      (simp_all add: float_constants)
  with False show ?thesis by (simp add: flushTimeEMA_def)
qed

lemma rotationTimeEMA_bounded:
  assumes "\<bar>elapsedAvg\<bar> \<le> 2 ^ 35" and "\<bar>elapsed\<bar> \<le> 2 ^ 34"
  shows "\<bar>rotationTimeEMA elapsedAvg elapsed\<bar> \<le> 2 ^ 35"
proof (cases "elapsedAvg \<le> 0")
  case True
  then show ?thesis using assms(2) by (simp add: rotationTimeEMA_def)
next
  case False
  then have a: "0 < elapsedAvg" "elapsedAvg \<le> 2 ^ 35" using assms(1) by simp_all
  have "\<bar>toFloat (toFloat (elapsedAvg * toFloat (8 / 10)) + toFloat (elapsed * toFloat (2 / 10)))\<bar>
        \<le> 2 ^ 35"
    by (rule blend_bounded[where mc = 13421773 and jc = "- 24" and md = 13421773 and jd = "- 26",
          OF _ _ _ _ _ _ _ _ _ a assms(2)])
      (simp_all add: float_constants)
  with False show ?thesis by (simp add: rotationTimeEMA_def)
qed

lemma blend_error:
  fixes p1 p2 A B h a b r v :: real
  assumes "\<bar>p1 - A\<bar> \<le> A / 16777216 + h" and "\<bar>p2 - B\<bar> \<le> B / 16777216 + h"
    and "\<bar>r - (p1 + p2)\<bar> \<le> (p1 + p2) / 16777216 + h"
    and "A = a * (15099494 / 16777216)" and "B = b * (13421773 / 134217728)"
    and "0 < a" and "0 \<le> b" and "0 \<le> h" and "v = a * (9 / 10) + b * (1 / 10)"
  shows "\<bar>r - v\<bar> \<le> v / 4194304 + 8 * h"
  using assms by argo

lemma flushTimeEMA_error:
  assumes a: "0 < a" and b: "0 \<le> b"
  shows "\<bar>flushTimeEMA a b - (a * (1 - 0.1) + b * 0.1)\<bar>
         \<le> (a * (1 - 0.1) + b * 0.1) / 2 ^ 22 + 1 / 2 ^ 147"
proof -
  define A where "A = a * (15099494 / 16777216)"
  define B where "B = b * (13421773 / 134217728)"
  define p1 where "p1 = toFloat A"
  define p2 where "p2 = toFloat B"
  define r where "r = toFloat (p1 + p2)"
  define h :: real where "h = 1 / 2 ^ 150"
  define v where "v = a * (9 / 10) + b * (1 / 10)"
  have f: "flushTimeEMA a b = r"
    using a by (simp add: flushTimeEMA_def float_constants r_def p1_def p2_def A_def B_def)
  have A: "0 \<le> A" and B: "0 \<le> B" using a b by (simp_all add: A_def B_def)
  have h: "0 \<le> h" by (simp add: h_def)
  have e1: "\<bar>p1 - A\<bar> \<le> A / 16777216 + h"
    using toFloat_error[of A] A by (simp add: p1_def h_def)
  have e2: "\<bar>p2 - B\<bar> \<le> B / 16777216 + h"
    using toFloat_error[of B] B by (simp add: p2_def h_def)
  have "of_int 0 * 2 powi 0 \<le> A" using A by simp
  then have "of_int 0 * 2 powi 0 \<le> toFloat A" by (rule toFloat_ge) simp_all
  then have p1: "0 \<le> p1" by (simp add: p1_def)
  have "of_int 0 * 2 powi 0 \<le> B" using B by simp
  then have "of_int 0 * 2 powi 0 \<le> toFloat B" by (rule toFloat_ge) simp_all
  then have p2: "0 \<le> p2" by (simp add: p2_def)
  have e3: "\<bar>r - (p1 + p2)\<bar> \<le> (p1 + p2) / 16777216 + h"
    using toFloat_error[of "p1 + p2"] p1 p2 by (simp add: r_def h_def)
  have "\<bar>r - v\<bar> \<le> v / 4194304 + 8 * h"
    by (rule blend_error[OF e1 e2 e3 A_def B_def a b h v_def])
  then show ?thesis by (simp add: f v_def h_def)
qed

subsection \<open>File operations leave the settings alone\<close>

lemma ioStep_refl: "ioStep s s"
  unfolding ioStep_def
  by (rule exI[of _ "files s"], rule exI[of _ "[]"], rule exI[of _ "m_logRotationTime s"],
      rule exI[of _ "firstTime s"]) simp

lemma ioStep_trans: "ioStep s s' \<Longrightarrow> ioStep s' s'' \<Longrightarrow> ioStep s s''"
proof -
  assume a: "ioStep s s'" and b: "ioStep s' s''"
  from a obtain fs es rt ft where
    1: "s' = s\<lparr>m_logRotationTime := rt, firstTime := ft, files := fs, events := events s @ es\<rparr>"
    and 2: "list_all (\<lambda>e. \<not> isSendLog e) es"
    unfolding ioStep_def by blast
  from b obtain fs' es' rt' ft' where
    3: "s'' = s'\<lparr>m_logRotationTime := rt', firstTime := ft', files := fs', events := events s' @ es'\<rparr>"
    and 4: "list_all (\<lambda>e. \<not> isSendLog e) es'"
    unfolding ioStep_def by blast
  have "s'' = s\<lparr>m_logRotationTime := rt', firstTime := ft', files := fs',
                 events := events s @ (es @ es')\<rparr>"
    using 1 3 by simp
  moreover have "list_all (\<lambda>e. \<not> isSendLog e) (es @ es')" using 2 4 by simp
  ultimately show ?thesis unfolding ioStep_def by blast
qed

lemma ioStep_emit: "\<not> isSendLog e \<Longrightarrow> ioStep s (emit e s)"
  unfolding ioStep_def emit_def
  by (rule exI[of _ "files s"], rule exI[of _ "[e]"], rule exI[of _ "m_logRotationTime s"],
      rule exI[of _ "firstTime s"]) simp

lemma ioStep_files: "ioStep s (s\<lparr>files := fs\<rparr>)"
  unfolding ioStep_def
  by (rule exI[of _ fs], rule exI[of _ "[]"], rule exI[of _ "m_logRotationTime s"],
      rule exI[of _ "firstTime s"]) simp

lemma ioStep_callErrorHandler: "ioStep s (callErrorHandler x s)"
  by (simp add: callErrorHandler_def ioStep_refl ioStep_emit)

lemma ioStep_removeFile: "removeFile env n s = (ok, s') \<Longrightarrow> ioStep s s'"
  by (auto simp: removeFile_def Let_def intro!: ioStep_trans[OF ioStep_files ioStep_emit])

lemma ioStep_renameFile: "renameFile env a b s = (ok, s') \<Longrightarrow> ioStep s s'"
  by (auto simp: renameFile_def Let_def intro!: ioStep_trans[OF ioStep_files ioStep_emit])

lemma ioStep_logFileTouch: "logFileTouch env n s = (ok, s') \<Longrightarrow> ioStep s s'"
  by (auto simp: logFileTouch_def split: if_splits
      intro!: ioStep_trans[OF ioStep_files ioStep_emit] ioStep_trans[OF ioStep_emit ioStep_callErrorHandler])

lemma ioStep_removeUnknown: "ioStep s (removeUnknown env f s)"
  by (auto simp: removeUnknown_def split: prod.splits
      intro: ioStep_removeFile ioStep_trans[OF ioStep_removeFile ioStep_callErrorHandler])

lemma ioStep_removeLastFile: "ioStep s (removeLastFile env fl s)"
  by (auto simp: removeLastFile_def split: prod.splits
      intro: ioStep_removeFile ioStep_trans[OF ioStep_removeFile ioStep_callErrorHandler])

lemma ioStep_filterPostfixes: "filterPostfixes env pending kept s = (fl, s') \<Longrightarrow> ioStep s s'"
proof (induction pending arbitrary: kept s)
  case Nil
  then show ?case by (simp add: ioStep_refl)
next
  case (Cons f pending)
  then show ?case
    by (auto split: if_splits intro: ioStep_trans[OF ioStep_removeUnknown])
qed

lemma ioStep_removeRedundant: "removeRedundant env mx fl s = (fl', s') \<Longrightarrow> ioStep s s'"
proof (induction env mx fl s rule: removeRedundant.induct)
  case (1 env maxFiles fileList s)
  show ?case
  proof (cases "maxFiles < length fileList")
    case True
    with 1 show ?thesis
      by (auto simp: removeRedundant.simps[of env maxFiles fileList s]
          intro: ioStep_trans[OF ioStep_removeLastFile])
  next
    case False
    with 1 show ?thesis
      by (simp add: removeRedundant.simps[of env maxFiles fileList s] ioStep_refl)
  qed
qed

lemma ioStep_temporaryRename: "temporaryRename env fl s = (fl', s') \<Longrightarrow> ioStep s s'"
proof (induction fl arbitrary: s fl' s')
  case Nil
  then show ?case by (simp add: ioStep_refl)
next
  case (Cons f fl)
  obtain ok s1 where r: "renameFile env f (f @ ''.temp'') s = (ok, s1)"
    by (cases "renameFile env f (f @ ''.temp'') s")
  show ?case
  proof (cases ok)
    case True
    with Cons.prems r obtain fl2 where "temporaryRename env fl s1 = (fl2, s')"
      by (auto split: prod.splits)
    then have "ioStep s1 s'" by (rule Cons.IH)
    with ioStep_renameFile[OF r] show ?thesis by (rule ioStep_trans)
  next
    case False
    with Cons.prems r obtain fl2 where
      "temporaryRename env fl (callErrorHandler (''Log file '' @ dq @ f @ dq @ '' renaming error'') s1) = (fl2, s')"
      by (auto split: prod.splits)
    then have "ioStep (callErrorHandler (''Log file '' @ dq @ f @ dq @ '' renaming error'') s1) s'"
      by (rule Cons.IH)
    with ioStep_trans[OF ioStep_renameFile[OF r] ioStep_callErrorHandler] show ?thesis
      by (rule ioStep_trans)
  qed
qed

lemma ioStep_linearRename: "ioStep s (linearRename p env fl i s)"
proof (induction i arbitrary: s)
  case 0
  then show ?case by (simp add: ioStep_refl)
next
  case (Suc i)
  show ?case
  proof (cases "fl ! i = indexedLogFileName p (i + 1)")
    case True
    then show ?thesis using Suc.IH by simp
  next
    case False
    obtain ok s1 where r: "renameFile env (fl ! i) (indexedLogFileName p (i + 1)) s = (ok, s1)"
      by (cases "renameFile env (fl ! i) (indexedLogFileName p (i + 1)) s")
    show ?thesis
    proof (cases ok)
      case True
      with False r have "linearRename p env fl (Suc i) s = linearRename p env fl i s1" by simp
      with ioStep_trans[OF ioStep_renameFile[OF r] Suc.IH] show ?thesis by simp
    next
      case no: False
      with False r have "linearRename p env fl (Suc i) s =
          linearRename p env fl i
            (callErrorHandler (''Log file '' @ dq @ (fl ! i) @ dq @ '' renaming error'') s1)"
        by simp
      with ioStep_trans[OF ioStep_trans[OF ioStep_renameFile[OF r] ioStep_callErrorHandler] Suc.IH]
      show ?thesis by simp
    qed
  qed
qed

lemma ioStep_rotationTime: "ioStep s (s\<lparr>m_logRotationTime := rt\<rparr>)"
  unfolding ioStep_def
  by (rule exI[of _ "files s"], rule exI[of _ "[]"], rule exI[of _ rt],
      rule exI[of _ "firstTime s"]) simp

lemma ioStep_firstTime: "ioStep s (s\<lparr>firstTime := ft\<rparr>)"
  unfolding ioStep_def
  by (rule exI[of _ "files s"], rule exI[of _ "[]"], rule exI[of _ "m_logRotationTime s"],
      rule exI[of _ ft]) simp

lemma ioStep_rotateFinish: "rotateFinish p env s = (ok, n, s') \<Longrightarrow> ioStep s s'"
proof -
  assume a: "rotateFinish p env s = (ok, n, s')"
  define elapsedAvg where "elapsedAvg =
     (if \<not> firstTime s then rotationTimeEMA (m_logRotationTime s) (rotateElapsed env)
      else m_logRotationTime s)"
  define s1 where "s1 = (if \<not> firstTime s then s\<lparr>m_logRotationTime := elapsedAvg\<rparr> else s)"
  define s2 where "s2 = (if \<not> NDEBUG p \<and> m_minOutLevel s1 = QtDebugMsg
                   \<and> \<not> m_cleanLogCategoryIsSet s1 \<and> \<not> firstTime s1
                then emit (RotateDiagnostic (rotateElapsed env) elapsedAvg) s1 else s1)"
  define s3 where "s3 = (if firstTime s2 then s2\<lparr>firstTime := False\<rparr> else s2)"
  have "rotateFinish p env s = (True, mainLogFileName p, s3)"
    unfolding rotateFinish_def s3_def s2_def s1_def elapsedAvg_def Let_def by (rule refl)
  with a have e: "s' = s3" by simp
  have 1: "ioStep s s1" unfolding s1_def by (simp add: ioStep_refl ioStep_rotationTime)
  have 2: "ioStep s1 s2" unfolding s2_def by (simp add: ioStep_refl ioStep_emit)
  have 3: "ioStep s2 s3" unfolding s3_def by (simp add: ioStep_refl ioStep_firstTime)
  show ?thesis unfolding e by (rule ioStep_trans[OF ioStep_trans[OF 1 2] 3])
qed

lemma rotateFinish_result: "rotateFinish p env s = (ok, n, s') \<Longrightarrow> ok \<and> n = mainLogFileName p"
  by (auto simp: rotateFinish_def Let_def)

lemma rotateFinish_files: "rotateFinish p env s = (ok, n, s') \<Longrightarrow> files s' = files s"
  by (auto simp: rotateFinish_def Let_def emit_def)

lemma ioStep_rotateNewFile: "rotateNewFile p env fl s = (ok, n, s') \<Longrightarrow> ioStep s s'"
proof -
  assume a: "rotateNewFile p env fl s = (ok, n, s')"
  define fl1 where "fl1 = (if m_maxLogFiles s \<le> length fl then butlast fl else fl)"
  define s1 where "s1 = (if m_maxLogFiles s \<le> length fl then removeLastFile env fl s else s)"
  define obstacle where "obstacle = (indexedLogFileName p (length fl1) \<in> set fl1)"
  obtain fl2 s2 where t: "(if obstacle then temporaryRename env fl1 s1 else (fl1, s1)) = (fl2, s2)"
    by (cases "if obstacle then temporaryRename env fl1 s1 else (fl1, s1)")
  define s3 where "s3 = linearRename p env fl2 (length fl2) s2"
  obtain ok4 s4 where l: "logFileTouch env (mainLogFileName p) s3 = (ok4, s4)"
    by (cases "logFileTouch env (mainLogFileName p) s3")
  have 1: "ioStep s s1" by (simp add: s1_def ioStep_refl ioStep_removeLastFile)
  have 2: "ioStep s1 s2" using t by (auto split: if_splits intro: ioStep_temporaryRename ioStep_refl)
  have 3: "ioStep s2 s3" by (simp add: s3_def ioStep_linearRename)
  have 4: "ioStep s3 s4" using l by (rule ioStep_logFileTouch)
  have 14: "ioStep s s4" by (rule ioStep_trans[OF ioStep_trans[OF ioStep_trans[OF 1 2] 3] 4])
  have r: "rotateNewFile p env fl s =
           (if \<not> ok4 then (False, mainLogFileName p, s4) else rotateFinish p env s4)"
    using t l unfolding rotateNewFile_def fl1_def s1_def obstacle_def s3_def
    by (auto simp: Let_def split: if_splits prod.splits)
  show ?thesis
  proof (cases ok4)
    case True
    with a r have "rotateFinish p env s4 = (ok, n, s')" by simp
    then show ?thesis using 14 ioStep_rotateFinish ioStep_trans by blast
  next
    case False
    with a r have "s' = s4" by simp
    with 14 show ?thesis by simp
  qed
qed

subsection \<open>The outcomes of a rotation\<close>

lemma logFileTouch_cases:
  "logFileTouch env (mainLogFileName p) s = (ok, s') \<Longrightarrow>
     (ok \<and> createOk env (mainLogFileName p))
     \<or> (\<not> ok \<and> \<not> createOk env (mainLogFileName p)
        \<and> s' = callErrorHandler (creationError p) (emit (FileCreate (mainLogFileName p) False) s))"
  by (auto simp: logFileTouch_def creationError_def split: if_splits)

lemma rotateNewFile_cases:
  assumes a: "rotateNewFile p env fl s = (ok, n, s')"
  shows "n = mainLogFileName p
         \<and> (if ok then createOk env (mainLogFileName p)
            else \<not> createOk env (mainLogFileName p) \<and> touchFailed p s s')"
proof -
  define fl1 where "fl1 = (if m_maxLogFiles s \<le> length fl then butlast fl else fl)"
  define s1 where "s1 = (if m_maxLogFiles s \<le> length fl then removeLastFile env fl s else s)"
  define obstacle where "obstacle = (indexedLogFileName p (length fl1) \<in> set fl1)"
  obtain fl2 s2 where t: "(if obstacle then temporaryRename env fl1 s1 else (fl1, s1)) = (fl2, s2)"
    by (cases "if obstacle then temporaryRename env fl1 s1 else (fl1, s1)")
  define s3 where "s3 = linearRename p env fl2 (length fl2) s2"
  obtain ok4 s4 where l: "logFileTouch env (mainLogFileName p) s3 = (ok4, s4)"
    by (cases "logFileTouch env (mainLogFileName p) s3")
  have 1: "ioStep s s1" by (simp add: s1_def ioStep_refl ioStep_removeLastFile)
  have 2: "ioStep s1 s2" using t by (auto split: if_splits intro: ioStep_temporaryRename ioStep_refl)
  have 3: "ioStep s2 s3" by (simp add: s3_def ioStep_linearRename)
  have 13: "ioStep s s3" by (rule ioStep_trans[OF ioStep_trans[OF 1 2] 3])
  have r: "rotateNewFile p env fl s =
           (if \<not> ok4 then (False, mainLogFileName p, s4) else rotateFinish p env s4)"
    using t l unfolding rotateNewFile_def fl1_def s1_def obstacle_def s3_def
    by (auto simp: Let_def split: if_splits prod.splits)
  show ?thesis
  proof (cases ok4)
    case True
    with a r have f: "rotateFinish p env s4 = (ok, n, s')" by simp
    from logFileTouch_cases[OF l] True have "createOk env (mainLogFileName p)" by simp
    with rotateFinish_result[OF f] show ?thesis by simp
  next
    case False
    with a r have e: "\<not> ok" "n = mainLogFileName p" "s' = s4" by simp_all
    from logFileTouch_cases[OF l] False have
      "\<not> createOk env (mainLogFileName p)"
      "s4 = callErrorHandler (creationError p) (emit (FileCreate (mainLogFileName p) False) s3)"
      by simp_all
    with e 13 show ?thesis unfolding touchFailed_def by auto
  qed
qed

lemma removeRedundant_nonempty:
  "removeRedundant env mx fl s = (fl', s') \<Longrightarrow> fl \<noteq> [] \<Longrightarrow> 0 < mx \<Longrightarrow> fl' \<noteq> []"
proof (induction env mx fl s rule: removeRedundant.induct)
  case (1 env maxFiles fileList s)
  show ?case
  proof (cases "maxFiles < length fileList")
    case True
    with "1.prems" have "butlast fileList \<noteq> []"
      by (cases fileList rule: rev_cases) auto
    with 1 True show ?thesis
      by (simp add: removeRedundant.simps[of env maxFiles fileList s])
  next
    case False
    with 1 show ?thesis
      by (simp add: removeRedundant.simps[of env maxFiles fileList s])
  qed
qed

lemma rotateScan_cases:
  assumes a: "rotateScan p env s = Some (ok, n, s')"
  shows "ioStep s s' \<and> n = mainLogFileName p
         \<and> (if ok then True
            else \<not> createOk env (mainLogFileName p) \<and> touchFailed p s s')"
proof -
  define el where "el = filter (nameFilter p) (map fst (files s))"
  obtain fl s1 where f: "filterPostfixes env (rev el) [] s = (fl, s1)"
    by (cases "filterPostfixes env (rev el) [] s")
  have 1: "ioStep s s1" using f by (rule ioStep_filterPostfixes)
  show ?thesis
  proof (cases "fl = []")
    case True
    obtain ok2 s2 where l: "logFileTouch env (mainLogFileName p) s1 = (ok2, s2)"
      by (cases "logFileTouch env (mainLogFileName p) s1")
    have r: "rotateScan p env s =
             (if \<not> ok2 then Some (False, mainLogFileName p, s2) else Some (rotateFinish p env s2))"
      using f l True unfolding rotateScan_def el_def by (simp add: Let_def)
    have 2: "ioStep s1 s2" using l by (rule ioStep_logFileTouch)
    show ?thesis
    proof (cases ok2)
      case ok2: True
      with a r have g: "rotateFinish p env s2 = (ok, n, s')" by simp
      from ioStep_rotateFinish[OF g] rotateFinish_result[OF g] 1 2 show ?thesis
        using ioStep_trans by auto
    next
      case False
      with a r have e: "\<not> ok" "n = mainLogFileName p" "s' = s2" by simp_all
      from logFileTouch_cases[OF l] False have
        "\<not> createOk env (mainLogFileName p)"
        "s2 = callErrorHandler (creationError p) (emit (FileCreate (mainLogFileName p) False) s1)"
        by simp_all
      with e 1 2 show ?thesis unfolding touchFailed_def using ioStep_trans by auto
    qed
  next
    case False
    obtain fl2 s2 where rr: "removeRedundant env (m_maxLogFiles s1) (sortByPostfix fl) s1 = (fl2, s2)"
      by (cases "removeRedundant env (m_maxLogFiles s1) (sortByPostfix fl) s1")
    have 2: "ioStep s1 s2" using rr by (rule ioStep_removeRedundant)
    have 12: "ioStep s s2" by (rule ioStep_trans[OF 1 2])
    from a f rr False obtain first rest where fl2: "fl2 = first # rest"
      unfolding rotateScan_def el_def by (cases fl2) (auto simp: Let_def)
    show ?thesis
    proof (cases "m_maxLogFileSize s2 \<le> fileSize (files s2) first \<or> first \<noteq> mainLogFileName p")
      case True
      have "rotateScan p env s = Some (rotateNewFile p env fl2 s2)"
        using f rr False fl2 True unfolding rotateScan_def el_def by (simp add: Let_def)
      with a have g: "rotateNewFile p env fl2 s2 = (ok, n, s')" by simp
      have "touchFailed p s2 s' \<Longrightarrow> touchFailed p s s'"
        unfolding touchFailed_def using 12 ioStep_trans by blast
      with rotateNewFile_cases[OF g] ioStep_rotateNewFile[OF g] 12 show ?thesis
        using ioStep_trans by (auto split: if_splits)
    next
      case no: False
      have "rotateScan p env s = Some (rotateFinish p env s2)"
        using f rr False fl2 no unfolding rotateScan_def el_def by (auto simp: Let_def)
      with a have g: "rotateFinish p env s2 = (ok, n, s')" by simp
      from ioStep_rotateFinish[OF g] rotateFinish_result[OF g] 12 show ?thesis
        using ioStep_trans by auto
    qed
  qed
qed

lemma triple_ex: "\<exists>ok n s'. (x :: bool \<times> string \<times> QCustomLog) = (ok, n, s')"
  by (cases x) auto

lemma rotateScan_defined:
  assumes "0 < m_maxLogFiles s"
  shows "\<exists>ok n s'. rotateScan p env s = Some (ok, n, s')"
proof -
  define el where "el = filter (nameFilter p) (map fst (files s))"
  obtain fl s1 where f: "filterPostfixes env (rev el) [] s = (fl, s1)"
    by (cases "filterPostfixes env (rev el) [] s")
  have 1: "ioStep s s1" using f by (rule ioStep_filterPostfixes)
  then have m: "m_maxLogFiles s1 = m_maxLogFiles s" unfolding ioStep_def by auto
  show ?thesis
  proof (cases "fl = []")
    case True
    then show ?thesis using f unfolding rotateScan_def el_def
      by (auto simp: Let_def triple_ex split: prod.splits)
  next
    case False
    obtain fl2 s2 where rr: "removeRedundant env (m_maxLogFiles s1) (sortByPostfix fl) s1 = (fl2, s2)"
      by (cases "removeRedundant env (m_maxLogFiles s1) (sortByPostfix fl) s1")
    have "sortByPostfix fl \<noteq> []" using False unfolding sortByPostfix_def
      by (metis length_0_conv length_sort)
    from removeRedundant_nonempty[OF rr this] assms m have "fl2 \<noteq> []" by simp
    then obtain first rest where "fl2 = first # rest" by (cases fl2) auto
    then show ?thesis using f rr False unfolding rotateScan_def el_def
      by (auto simp: Let_def triple_ex)
  qed
qed

lemma rotateLogFiles_ioStep:
  assumes a: "rotateLogFiles p env n0 s = Some (ok, n, s')"
  shows "ioStep s s'"
proof (cases "m_logDir s = []")
  case True
  with a have "s' = callErrorHandler ''Log directory is not set'' s"
    by (simp add: rotateLogFiles_def)
  then show ?thesis by (simp add: ioStep_callErrorHandler)
next
  case False
  from a False have "rotateScan p env s = Some (ok, n, s') \<or> rotateFinish p env s = (ok, n, s')"
    by (auto simp: rotateLogFiles_def Let_def split: if_splits)
  then show ?thesis using rotateScan_cases ioStep_rotateFinish by blast
qed

lemma rotateLogFiles_cases:
  assumes a: "rotateLogFiles p env n0 s = Some (ok, n, s')" and d: "m_logDir s \<noteq> []"
  shows "n = mainLogFileName p
         \<and> (\<not> ok \<longrightarrow> \<not> createOk env (mainLogFileName p) \<and> touchFailed p s s')"
proof -
  from a d have "rotateScan p env s = Some (ok, n, s') \<or> rotateFinish p env s = (ok, n, s')"
    by (auto simp: rotateLogFiles_def Let_def split: if_splits)
  then show ?thesis
  proof
    assume "rotateScan p env s = Some (ok, n, s')"
    from rotateScan_cases[OF this] show ?thesis by (auto split: if_splits)
  next
    assume "rotateFinish p env s = (ok, n, s')"
    from rotateFinish_result[OF this] show ?thesis by simp
  qed
qed

lemma rotateLogFiles_defined:
  assumes "0 < m_maxLogFiles s"
  shows "\<exists>ok n s'. rotateLogFiles p env n0 s = Some (ok, n, s')"
  using rotateScan_defined[OF assms, of p env]
  by (auto simp: rotateLogFiles_def Let_def triple_ex)

lemma rotateLogFiles_succeeds:
  assumes "0 < m_maxLogFiles s" and "m_logDir s \<noteq> []" and "createOk env (mainLogFileName p)"
  shows "\<exists>s'. rotateLogFiles p env n0 s = Some (True, mainLogFileName p, s')"
proof -
  from rotateLogFiles_defined[OF assms(1), of p env n0] obtain ok n s'
    where r: "rotateLogFiles p env n0 s = Some (ok, n, s')" by blast
  from rotateLogFiles_cases[OF r assms(2)] assms(3) have "n = mainLogFileName p" "ok" by auto
  with r show ?thesis by auto
qed


subsection \<open>Appending and writing\<close>

lemma fileExists_appendEntry: "fileExists (appendEntry n b fs) n"
proof (cases "fileExists fs n")
  case True
  have "map fst (map (\<lambda>e. if fst e = n then (n, snd e @ b) else e) fs) = map fst fs"
    by (induction fs) auto
  with True show ?thesis by (simp add: appendEntry_def fileExists_def del: map_map)
next
  case False
  then show ?thesis by (simp add: appendEntry_def fileExists_def)
qed

lemma appendEntry_Nil: "fileExists fs n \<Longrightarrow> appendEntry n [] fs = fs"
proof -
  have "map (\<lambda>e. if fst e = n then (n, snd e @ []) else e) fs = fs"
    by (induction fs) auto
  then show "fileExists fs n \<Longrightarrow> appendEntry n [] fs = fs"
    by (simp add: appendEntry_def)
qed

lemma appendEntry_append:
  "appendEntry n b (appendEntry n a fs) = appendEntry n (a @ b) fs"
proof (cases "fileExists fs n")
  case True
  have "fileExists (map (\<lambda>e. if fst e = n then (n, snd e @ a) else e) fs) n"
    using fileExists_appendEntry[of n a fs] True by (simp add: appendEntry_def)
  moreover have "map (\<lambda>e. if fst e = n then (n, snd e @ b) else e)
                   (map (\<lambda>e. if fst e = n then (n, snd e @ a) else e) fs)
                 = map (\<lambda>e. if fst e = n then (n, snd e @ a @ b) else e) fs"
    by (induction fs) auto
  ultimately show ?thesis using True by (simp add: appendEntry_def)
next
  case False
  then have "map (\<lambda>e. if fst e = n then (n, snd e @ b) else e) fs = fs"
    by (induction fs) (auto simp: fileExists_def)
  moreover have "fileExists (fs @ [(n, a)]) n" by (simp add: fileExists_def)
  ultimately show ?thesis using False by (simp add: appendEntry_def)
qed

lemma fileContent_appendEntry:
  "fileContent (appendEntry n b fs) n = fileContent fs n @ b"
proof (cases "fileExists fs n")
  case True
  have "map_of (map (\<lambda>e. if fst e = n then (n, snd e @ b) else e) fs) n
        = map_option (\<lambda>c. c @ b) (map_of fs n)"
    by (induction fs) auto
  moreover from True have "map_of fs n \<noteq> None"
    by (simp add: fileExists_def map_of_eq_None_iff)
  ultimately show ?thesis using True
    by (auto simp: fileContent_def appendEntry_def split: option.splits)
next
  case False
  then have "map_of fs n = None" by (simp add: fileExists_def map_of_eq_None_iff)
  with False show ?thesis by (simp add: fileContent_def appendEntry_def map_add_def)
qed

lemma fileContent_appendEntry_other:
  "n' \<noteq> n \<Longrightarrow> fileContent (appendEntry n b fs) n' = fileContent fs n'"
proof -
  assume d: "n' \<noteq> n"
  have "map_of (map (\<lambda>e. if fst e = n then (n, snd e @ b) else e) fs) n' = map_of fs n'"
    using d by (induction fs) auto
  then show ?thesis using d
    by (auto simp: fileContent_def appendEntry_def map_add_def split: option.splits)
qed

lemma writeLines_files:
  "fileExists (files s) n \<Longrightarrow> list_all (writeOk env) ls \<Longrightarrow>
   files (writeLines env n ls s) = appendEntry n (linesBytes ls) (files s)"
proof (induction ls arbitrary: s)
  case Nil
  then show ?case by (simp add: linesBytes_def appendEntry_Nil)
next
  case (Cons l ls)
  define s2 where "s2 = emit (FileWrite n (l @ eol) True)
                          (s\<lparr>files := appendEntry n (l @ eol) (files s)\<rparr>)"
  have f: "files s2 = appendEntry n (l @ eol) (files s)" by (simp add: s2_def emit_def)
  then have "fileExists (files s2) n" by (simp add: fileExists_appendEntry)
  moreover from Cons.prems have "list_all (writeOk env) ls" by simp
  ultimately have "files (writeLines env n ls s2) = appendEntry n (linesBytes ls) (files s2)"
    by (rule Cons.IH)
  moreover from Cons.prems have "writeLines env n (l # ls) s = writeLines env n ls s2"
    by (simp add: s2_def)
  ultimately show ?case by (simp add: f appendEntry_append linesBytes_def)
qed

lemma writeLines_events:
  "events (writeLines env n ls s) = events s @ map (\<lambda>l. FileWrite n (l @ eol) (writeOk env l)) ls"
  by (induction ls arbitrary: s) (simp_all add: emit_def)

lemma writeLines_frame:
  "\<exists>fs es. writeLines env n ls s = s\<lparr>files := fs, events := es\<rparr>"
proof (induction ls arbitrary: s)
  case Nil
  have "s = s\<lparr>files := files s, events := events s\<rparr>" by simp
  then show ?case by (metis writeLines.simps(1))
next
  case (Cons l ls)
  define s2 where "s2 = emit (FileWrite n (l @ eol) (writeOk env l))
          (if writeOk env l then s\<lparr>files := appendEntry n (l @ eol) (files s)\<rparr> else s)"
  from Cons[of s2] obtain fs es where "writeLines env n ls s2 = s2\<lparr>files := fs, events := es\<rparr>"
    by blast
  moreover have "s2\<lparr>files := fs, events := es\<rparr> = s\<lparr>files := fs, events := es\<rparr>"
    by (simp add: s2_def emit_def)
  ultimately have "writeLines env n (l # ls) s = s\<lparr>files := fs, events := es\<rparr>"
    by (simp add: s2_def)
  then show ?case by blast
qed

subsection \<open>The flush\<close>

lemma ioStep_fields:
  assumes "ioStep s s'"
  shows "m_logBuffer s' = m_logBuffer s" "m_logFileName s' = m_logFileName s"
    "m_logDir s' = m_logDir s" "m_maxLogFiles s' = m_maxLogFiles s"
    "m_maxLogFileSize s' = m_maxLogFileSize s"
    "m_logBufferFlushTime s' = m_logBufferFlushTime s" "m_errorHandler s' = m_errorHandler s"
    "m_logBufferEnabled s' = m_logBufferEnabled s" "m_minOutLevel s' = m_minOutLevel s"
    "m_cleanLogCategoryIsSet s' = m_cleanLogCategoryIsSet s"
    "m_maxBufferMessages s' = m_maxBufferMessages s"
    "sendLogCalls s' = sendLogCalls s"
  using assms unfolding ioStep_def sendLogCalls_def
  by (auto simp: list_all_iff filter_empty_conv)

lemma sendLogCalls_emit: "\<not> isSendLog e \<Longrightarrow> sendLogCalls (emit e s) = sendLogCalls s"
  by (simp add: sendLogCalls_def emit_def)

lemma sendLogCalls_callErrorHandler: "sendLogCalls (callErrorHandler x s) = sendLogCalls s"
  by (simp add: callErrorHandler_def sendLogCalls_emit)

lemma sendLogCalls_writeLines: "sendLogCalls (writeLines env n ls s) = sendLogCalls s"
  by (simp add: sendLogCalls_def writeLines_events filter_empty_conv)

lemma writeLines_fields:
  "m_logBuffer (writeLines env n ls s) = m_logBuffer s"
  "m_logFileName (writeLines env n ls s) = m_logFileName s"
  "m_logBufferFlushTime (writeLines env n ls s) = m_logBufferFlushTime s"
  "m_logDir (writeLines env n ls s) = m_logDir s"
  "m_maxLogFiles (writeLines env n ls s) = m_maxLogFiles s"
  using writeLines_frame[of env n ls s] by auto

lemma restartTimer_fields:
  "m_logBuffer (restartTimer s) = m_logBuffer s"
  "m_logFileName (restartTimer s) = m_logFileName s"
  "m_logDir (restartTimer s) = m_logDir s"
  "m_maxLogFiles (restartTimer s) = m_maxLogFiles s"
  "m_logBufferFlushTime (restartTimer s) = m_logBufferFlushTime s"
  "files (restartTimer s) = files s"
  "sendLogCalls (restartTimer s) = sendLogCalls s"
  by (simp_all add: restartTimer_def emit_def sendLogCalls_def)

lemma swapBuffer_fields:
  "m_logBuffer (swapBuffer env s) = meanwhile env"
  "m_logFileName (swapBuffer env s) = m_logFileName s"
  "m_logDir (swapBuffer env s) = m_logDir s"
  "m_maxLogFiles (swapBuffer env s) = m_maxLogFiles s"
  "m_logBufferFlushTime (swapBuffer env s) = m_logBufferFlushTime s"
  "files (swapBuffer env s) = files s"
  "sendLogCalls (swapBuffer env s) = sendLogCalls s"
  by (simp_all add: swapBuffer_def Let_def sendLogCalls_def)

lemma flushBuffer_unfold:
  "flushBuffer p env force s =
     (if m_logBuffer s = [] then Some (restartTimer s)
      else (case rotateLogFiles p env (m_logFileName s) (swapBuffer env (restartTimer s)) of
              None \<Rightarrow> None
            | Some (ok, n, s4) \<Rightarrow>
                if \<not> ok then Some (requeue (m_logBuffer s) (s4\<lparr>m_logFileName := n\<rparr>))
                else if \<not> openOk env n
                then Some (requeue (m_logBuffer s)
                             (callErrorHandler (''Log file '' @ dq @ n @ dq @ '' open error: '' @ openError env n)
                                (emit (FileOpen n False) (s4\<lparr>m_logFileName := n\<rparr>))))
                else Some (flushWrite p env force n (m_logBuffer s) (s4\<lparr>m_logFileName := n\<rparr>))))"
  unfolding flushBuffer_def
  by (simp add: Let_def restartTimer_fields swapBuffer_fields split: option.splits prod.splits)

lemma flushWrite_props:
  assumes w: "list_all (writeOk env) ls"
  shows "files (flushWrite p env force n ls s) = appendEntry n (linesBytes ls) (files s)"
    and "m_logBuffer (flushWrite p env force n ls s) = m_logBuffer s"
    and "m_logFileName (flushWrite p env force n ls s) = m_logFileName s"
    and "m_logBufferFlushTime (flushWrite p env force n ls s)
         = flushTimeEMA (m_logBufferFlushTime s) (flushElapsed env)"
    and "force \<Longrightarrow> FileFlush n \<in> set (events (flushWrite p env force n ls s))"
proof -
  define s6 where "s6 = emit (FileOpen n True) (s\<lparr>files := appendEntry n [] (files s)\<rparr>)"
  have f6: "files s6 = appendEntry n [] (files s)" by (simp add: s6_def emit_def)
  then have "fileExists (files s6) n" by (simp add: fileExists_appendEntry)
  from writeLines_files[OF this w] f6
  have f7: "files (writeLines env n ls s6) = appendEntry n (linesBytes ls) (files s)"
    by (simp add: appendEntry_append)
  have b6: "m_logBuffer s6 = m_logBuffer s" "m_logFileName s6 = m_logFileName s"
    "m_logBufferFlushTime s6 = m_logBufferFlushTime s"
    by (simp_all add: s6_def emit_def)
  show "files (flushWrite p env force n ls s) = appendEntry n (linesBytes ls) (files s)"
    using f7 unfolding flushWrite_def s6_def by (simp add: Let_def emit_def)
  show "m_logBuffer (flushWrite p env force n ls s) = m_logBuffer s"
    using b6 unfolding flushWrite_def s6_def by (simp add: Let_def emit_def writeLines_fields)
  show "m_logFileName (flushWrite p env force n ls s) = m_logFileName s"
    using b6 unfolding flushWrite_def s6_def by (simp add: Let_def emit_def writeLines_fields)
  show "m_logBufferFlushTime (flushWrite p env force n ls s)
         = flushTimeEMA (m_logBufferFlushTime s) (flushElapsed env)"
    using b6 unfolding flushWrite_def s6_def by (simp add: Let_def emit_def writeLines_fields)
  show "force \<Longrightarrow> FileFlush n \<in> set (events (flushWrite p env force n ls s))"
    unfolding flushWrite_def by (simp add: Let_def emit_def)
qed

lemma sendLogCalls_updates:
  "sendLogCalls (s\<lparr>files := fs\<rparr>) = sendLogCalls s"
  "sendLogCalls (s\<lparr>m_logBufferFlushTime := x\<rparr>) = sendLogCalls s"
  "sendLogCalls (s\<lparr>m_logFileName := n\<rparr>) = sendLogCalls s"
  "sendLogCalls (s\<lparr>m_logBuffer := b\<rparr>) = sendLogCalls s"
  by (simp_all add: sendLogCalls_def)

lemma sendLogCalls_flushWrite:
  "sendLogCalls (flushWrite p env force n ls s) = sendLogCalls s"
  unfolding flushWrite_def
  by (simp add: Let_def sendLogCalls_emit sendLogCalls_writeLines sendLogCalls_updates)

lemma flushBuffer_written:
  assumes b: "m_logBuffer s \<noteq> []"
    and r: "rotateLogFiles p env (m_logFileName s) (swapBuffer env (restartTimer s)) = Some (True, n, s1)"
    and o: "openOk env n" and w: "list_all (writeOk env) (m_logBuffer s)"
  shows "\<exists>s'. flushBuffer p env force s = Some s'
     \<and> files s' = appendEntry n (linesBytes (m_logBuffer s)) (files s1)
     \<and> m_logBuffer s' = meanwhile env
     \<and> m_logFileName s' = n
     \<and> m_logBufferFlushTime s' = flushTimeEMA (m_logBufferFlushTime s) (flushElapsed env)
     \<and> (force \<longrightarrow> FileFlush n \<in> set (events s'))"
proof -
  define s5 where "s5 = s1\<lparr>m_logFileName := n\<rparr>"
  have e: "flushBuffer p env force s = Some (flushWrite p env force n (m_logBuffer s) s5)"
    using b r o by (simp add: flushBuffer_unfold s5_def)
  from rotateLogFiles_ioStep[OF r] have i: "ioStep (swapBuffer env (restartTimer s)) s1" .
  have "m_logBuffer s5 = meanwhile env" "m_logBufferFlushTime s5 = m_logBufferFlushTime s"
    "files s5 = files s1" "m_logFileName s5 = n"
    using ioStep_fields[OF i] by (simp_all add: s5_def swapBuffer_fields restartTimer_fields)
  with flushWrite_props[OF w] e show ?thesis by simp
qed


lemma flushBuffer_defined:
  assumes "0 < m_maxLogFiles s"
  shows "\<exists>s'. flushBuffer p env force s = Some s'"
proof -
  have "0 < m_maxLogFiles (swapBuffer env (restartTimer s))"
    using assms by (simp add: swapBuffer_fields restartTimer_fields)
  from rotateLogFiles_defined[OF this, of p env "m_logFileName s"]
  show ?thesis by (auto simp: flushBuffer_unfold)
qed

lemma flushBuffer_sendLogCalls:
  assumes "flushBuffer p env force s = Some s'"
  shows "sendLogCalls s' = sendLogCalls s"
proof (cases "m_logBuffer s = []")
  case True
  with assms show ?thesis by (auto simp: flushBuffer_unfold restartTimer_fields)
next
  case False
  with assms obtain ok n s1 where
    r: "rotateLogFiles p env (m_logFileName s) (swapBuffer env (restartTimer s)) = Some (ok, n, s1)"
    by (auto simp: flushBuffer_unfold split: option.splits)
  from rotateLogFiles_ioStep[OF r] have "sendLogCalls s1 = sendLogCalls s"
    by (simp add: ioStep_fields swapBuffer_fields restartTimer_fields)
  with assms False r show ?thesis
    by (auto simp: flushBuffer_unfold requeue_def sendLogCalls_updates sendLogCalls_emit
        sendLogCalls_callErrorHandler sendLogCalls_flushWrite split: if_splits)
qed

lemma enqueueAll_fields:
  "m_logBuffer (enqueueAll ls s) = m_logBuffer s @ ls"
  "m_logFileName (enqueueAll ls s) = m_logFileName s"
  "m_logDir (enqueueAll ls s) = m_logDir s"
  "m_maxLogFiles (enqueueAll ls s) = m_maxLogFiles s"
  "files (enqueueAll ls s) = files s"
  unfolding enqueueAll_def
  by (induction ls arbitrary: s) (simp_all add: enqueue_def)



subsection \<open>The handler and the flush, step by step\<close>

lemma writeLines_settings:
  "m_minOutLevel (writeLines env n ls s) = m_minOutLevel s"
  "m_cleanLogCategoryIsSet (writeLines env n ls s) = m_cleanLogCategoryIsSet s"
  using writeLines_frame[of env n ls s] by auto

lemma flushWrite_events:
  assumes w: "list_all (writeOk env) ls"
  shows "events (flushWrite p env force n ls s)
         = events s @ writeEvents n force ls @ flushDiagnostics p env s"
proof -
  have "map (\<lambda>l. FileWrite n (l @ eol) (writeOk env l)) ls = map (\<lambda>l. FileWrite n (l @ eol) True) ls"
    using w by (induction ls) auto
  then show ?thesis
    unfolding flushWrite_def writeEvents_def flushDiagnostics_def
    by (simp add: Let_def emit_def writeLines_events writeLines_fields writeLines_settings)
qed

lemma flushBuffer_written_events:
  assumes b: "m_logBuffer s \<noteq> []"
    and r: "rotateLogFiles p env (m_logFileName s) (swapBuffer env (restartTimer s)) = Some (True, n, s1)"
    and o: "openOk env n" and w: "list_all (writeOk env) (m_logBuffer s)"
    and f: "flushBuffer p env force s = Some s'"
  shows "events s' = events s1 @ writeEvents n force (m_logBuffer s) @ flushDiagnostics p env s"
proof -
  define s5 where "s5 = s1\<lparr>m_logFileName := n\<rparr>"
  have e: "flushBuffer p env force s = Some (flushWrite p env force n (m_logBuffer s) s5)"
    using b r o by (simp add: flushBuffer_unfold s5_def)
  from rotateLogFiles_ioStep[OF r] have i: "ioStep (swapBuffer env (restartTimer s)) s1" .
  have "m_minOutLevel (swapBuffer env (restartTimer s)) = m_minOutLevel s"
    "m_cleanLogCategoryIsSet (swapBuffer env (restartTimer s)) = m_cleanLogCategoryIsSet s"
    "m_logBufferFlushTime (swapBuffer env (restartTimer s)) = m_logBufferFlushTime s"
    by (simp_all add: swapBuffer_def restartTimer_def emit_def Let_def)
  with ioStep_fields[OF i] have "flushDiagnostics p env s5 = flushDiagnostics p env s"
    by (simp add: flushDiagnostics_def s5_def)
  moreover have "events s5 = events s1" by (simp add: s5_def)
  ultimately show ?thesis using flushWrite_events[OF w, of p force n s5] e f by simp
qed

lemma consoleOutput_fields:
  "m_logBuffer (consoleOutput t m s) = m_logBuffer s"
  "m_logFileName (consoleOutput t m s) = m_logFileName s"
  "m_logDir (consoleOutput t m s) = m_logDir s"
  "m_maxLogFiles (consoleOutput t m s) = m_maxLogFiles s"
  "m_minOutFileLevel (consoleOutput t m s) = m_minOutFileLevel s"
  "m_logBufferEnabled (consoleOutput t m s) = m_logBufferEnabled s"
  "files (consoleOutput t m s) = files s"
  "mayWrite m (consoleOutput t m s) = mayWrite m s"
  "sendLogCalls (consoleOutput t m s) = sendLogCalls s"
  by (simp_all add: consoleOutput_def emit_def mayWrite_def sendLogCalls_def)

lemma enqueue_fields:
  "m_logBuffer (enqueue l s) = m_logBuffer s @ [l]"
  "m_logFileName (enqueue l s) = m_logFileName s"
  "m_logDir (enqueue l s) = m_logDir s"
  "m_maxLogFiles (enqueue l s) = m_maxLogFiles s"
  "m_logBufferEnabled (enqueue l s) = m_logBufferEnabled s"
  "files (enqueue l s) = files s"
  "events (enqueue l s) = events s"
  "sendLogCalls (enqueue l s) = sendLogCalls s"
  by (simp_all add: enqueue_def sendLogCalls_def)

lemma sendLog_fields:
  "events (sendLog t m s) = events s @ [SendLog t (category m) (messageOf t m)]"
  "sendLogCalls (sendLog t m s) = Suc (sendLogCalls s)"
  "m_logBuffer (sendLog t m s) = m_logBuffer s"
  "files (sendLog t m s) = files s"
  by (simp_all add: sendLog_def emit_def sendLogCalls_def)

lemma fatalOutput_fields:
  "events (fatalOutput m s)
   = events s @ [Console QtFatalMsg
                   (if m_cleanLogCategory s = []
                    then colour QtFatalMsg (formattedMessage QtFatalMsg m)
                    else ''[FTL] '' @ msg m)]"
  "m_logBuffer (fatalOutput m s) = m_logBuffer s"
  "files (fatalOutput m s) = files s"
  by (simp_all add: fatalOutput_def emit_def)

lemma messageHandler_fatal:
  "messageHandler p env QtFatalMsg m s =
     (if mayWrite m s
      then map_option (\<lambda>s'. fatalOutput m (sendLog QtFatalMsg m s'))
             (flushBuffer p env True (enqueue (formattedMessage QtFatalMsg m) s))
      else Some (fatalOutput m s))"
  by (simp add: messageHandler_def option.map_comp comp_def split: option.splits)

lemma messageHandler_nonfatal:
  assumes "t \<noteq> QtFatalMsg" and "\<not> (NDEBUG p \<and> t = QtDebugMsg)"
  shows "messageHandler p env t m s =
     (if mayWrite m s then
        map_option (sendLog t m)
          (if levelGreaterOrEqual t (m_minOutFileLevel s) then
             (if t = QtCriticalMsg \<or> \<not> m_logBufferEnabled s
              then flushBuffer p env (t = QtCriticalMsg)
                     (enqueue (formattedMessage t m) (consoleOutput t m s))
              else Some (enqueue (formattedMessage t m) (consoleOutput t m s)))
           else Some (consoleOutput t m s))
      else Some (consoleOutput t m s))"
  using assms
  by (auto simp: messageHandler_def Let_def consoleOutput_fields enqueue_fields)

lemma flushDiagnostics_cong:
  "flushDiagnostics p env (enqueue l s) = flushDiagnostics p env s"
  "flushDiagnostics p env (consoleOutput t m s) = flushDiagnostics p env s"
  by (simp_all add: flushDiagnostics_def enqueue_def consoleOutput_def emit_def)

lemma enqueue_flush:
  assumes u: "unhindered p env s (m_logBuffer s @ [l])"
  shows "\<exists>s1 s2. rotateLogFiles p env (m_logFileName s) (swapBuffer env (restartTimer (enqueue l s)))
                    = Some (True, mainLogFileName p, s1)
           \<and> flushBuffer p env force (enqueue l s) = Some s2
           \<and> files s2 = appendEntry (mainLogFileName p) (linesBytes (m_logBuffer s @ [l])) (files s1)
           \<and> events s2 = events s1 @ writeEvents (mainLogFileName p) force (m_logBuffer s @ [l])
                            @ flushDiagnostics p env s
           \<and> m_logBuffer s2 = meanwhile env"
proof -
  define t where "t = enqueue l s"
  have b: "m_logBuffer t = m_logBuffer s @ [l]" and ne: "m_logBuffer t \<noteq> []"
    and n: "m_logFileName t = m_logFileName s"
    by (simp_all add: t_def enqueue_fields)
  from u have "0 < m_maxLogFiles (swapBuffer env (restartTimer t))"
    "m_logDir (swapBuffer env (restartTimer t)) \<noteq> []"
    by (simp_all add: unhindered_def t_def swapBuffer_fields restartTimer_fields enqueue_fields)
  moreover from u have c: "createOk env (mainLogFileName p)" and o: "openOk env (mainLogFileName p)"
    and w: "list_all (writeOk env) (m_logBuffer t)"
    by (simp_all add: unhindered_def b)
  ultimately obtain s1 where
    r: "rotateLogFiles p env (m_logFileName t) (swapBuffer env (restartTimer t))
        = Some (True, mainLogFileName p, s1)"
    using rotateLogFiles_succeeds by blast
  from flushBuffer_written[OF ne r o w, of force] obtain s2 where
    f: "flushBuffer p env force t = Some s2"
       "files s2 = appendEntry (mainLogFileName p) (linesBytes (m_logBuffer t)) (files s1)"
       "m_logBuffer s2 = meanwhile env"
    by blast
  from flushBuffer_written_events[OF ne r o w f(1)]
  have "events s2 = events s1 @ writeEvents (mainLogFileName p) force (m_logBuffer t)
                      @ flushDiagnostics p env t" .
  with r f b n show ?thesis unfolding t_def by (auto simp: flushDiagnostics_cong)
qed

lemma ioStep_settings:
  assumes "ioStep s s'"
  shows "m_cleanLogCategory s' = m_cleanLogCategory s \<and> m_cleanToFile s' = m_cleanToFile s
         \<and> m_minOutFileLevel s' = m_minOutFileLevel s \<and> m_minOutLevel s' = m_minOutLevel s
         \<and> m_logDir s' = m_logDir s \<and> m_maxLogFiles s' = m_maxLogFiles s
         \<and> m_maxLogFileSize s' = m_maxLogFileSize s
         \<and> m_logBufferEnabled s' = m_logBufferEnabled s"
  using assms unfolding ioStep_def by auto

lemma flushWrite_settings:
  "m_cleanLogCategory (flushWrite p env force n ls s) = m_cleanLogCategory s
   \<and> m_cleanToFile (flushWrite p env force n ls s) = m_cleanToFile s
   \<and> m_minOutFileLevel (flushWrite p env force n ls s) = m_minOutFileLevel s
   \<and> m_minOutLevel (flushWrite p env force n ls s) = m_minOutLevel s
   \<and> m_logDir (flushWrite p env force n ls s) = m_logDir s
   \<and> m_maxLogFiles (flushWrite p env force n ls s) = m_maxLogFiles s
   \<and> m_maxLogFileSize (flushWrite p env force n ls s) = m_maxLogFileSize s
   \<and> m_logBufferEnabled (flushWrite p env force n ls s) = m_logBufferEnabled s"
proof -
  define s6 where "s6 = emit (FileOpen n True) (s\<lparr>files := appendEntry n [] (files s)\<rparr>)"
  obtain fs es where w: "writeLines env n ls s6 = s6\<lparr>files := fs, events := es\<rparr>"
    using writeLines_frame by blast
  show ?thesis
    unfolding flushWrite_def Let_def s6_def[symmetric] w
    by (simp add: s6_def emit_def)
qed

lemma flushBuffer_settings:
  assumes "flushBuffer p env force s = Some s'"
  shows "m_cleanLogCategory s' = m_cleanLogCategory s \<and> m_cleanToFile s' = m_cleanToFile s
         \<and> m_minOutFileLevel s' = m_minOutFileLevel s \<and> m_minOutLevel s' = m_minOutLevel s
         \<and> m_logDir s' = m_logDir s \<and> m_maxLogFiles s' = m_maxLogFiles s
         \<and> m_maxLogFileSize s' = m_maxLogFileSize s
         \<and> m_logBufferEnabled s' = m_logBufferEnabled s"
proof (cases "m_logBuffer s = []")
  case True
  with assms have "s' = restartTimer s" by (simp add: flushBuffer_unfold)
  then show ?thesis by (cases "m_logBufferEnabled s") (simp_all add: restartTimer_def emit_def)
next
  case False
  with assms obtain ok n s1 where
    r: "rotateLogFiles p env (m_logFileName s) (swapBuffer env (restartTimer s)) = Some (ok, n, s1)"
    by (auto simp: flushBuffer_unfold split: option.splits)
  have "ioStep (swapBuffer env (restartTimer s)) s1" using r by (rule rotateLogFiles_ioStep)
  from ioStep_settings[OF this]
  have 1: "m_cleanLogCategory s1 = m_cleanLogCategory s \<and> m_cleanToFile s1 = m_cleanToFile s
         \<and> m_minOutFileLevel s1 = m_minOutFileLevel s \<and> m_minOutLevel s1 = m_minOutLevel s
         \<and> m_logDir s1 = m_logDir s \<and> m_maxLogFiles s1 = m_maxLogFiles s
         \<and> m_maxLogFileSize s1 = m_maxLogFileSize s
         \<and> m_logBufferEnabled s1 = m_logBufferEnabled s"
    by (simp add: swapBuffer_def restartTimer_def emit_def Let_def)
  from assms False r have
    "s' = requeue (m_logBuffer s) (s1\<lparr>m_logFileName := n\<rparr>)
     \<or> s' = requeue (m_logBuffer s)
               (callErrorHandler (''Log file '' @ dq @ n @ dq @ '' open error: '' @ openError env n)
                  (emit (FileOpen n False) (s1\<lparr>m_logFileName := n\<rparr>)))
     \<or> s' = flushWrite p env force n (m_logBuffer s) (s1\<lparr>m_logFileName := n\<rparr>)"
    by (auto simp: flushBuffer_unfold split: if_splits)
  then show ?thesis
  proof (elim disjE)
    assume "s' = requeue (m_logBuffer s) (s1\<lparr>m_logFileName := n\<rparr>)"
    with 1 show ?thesis by (simp add: requeue_def)
  next
    assume "s' = requeue (m_logBuffer s)
               (callErrorHandler (''Log file '' @ dq @ n @ dq @ '' open error: '' @ openError env n)
                  (emit (FileOpen n False) (s1\<lparr>m_logFileName := n\<rparr>)))"
    with 1 show ?thesis by (simp add: requeue_def callErrorHandler_def emit_def)
  next
    assume "s' = flushWrite p env force n (m_logBuffer s) (s1\<lparr>m_logFileName := n\<rparr>)"
    with 1 flushWrite_settings[of p env force n "m_logBuffer s" "s1\<lparr>m_logFileName := n\<rparr>"]
    show ?thesis by simp
  qed
qed


lemma touchFailed_events:
  assumes "touchFailed p s s'"
  shows "m_logBuffer s' = m_logBuffer s"
    and "m_errorHandler s \<Longrightarrow> last (events s') = ErrorReport (creationError p)"
    and "\<not> m_errorHandler s \<Longrightarrow> last (events s') = FileCreate (mainLogFileName p) False"
    and "FileCreate (mainLogFileName p) False \<in> set (events s')"
proof -
  from assms obtain s3 where i: "ioStep s s3"
    and e: "s' = callErrorHandler (creationError p) (emit (FileCreate (mainLogFileName p) False) s3)"
    unfolding touchFailed_def by blast
  from ioStep_fields[OF i] have h: "m_errorHandler s3 = m_errorHandler s" "m_logBuffer s3 = m_logBuffer s"
    by simp_all
  show "m_logBuffer s' = m_logBuffer s" using e h by (simp add: callErrorHandler_def emit_def)
  show "m_errorHandler s \<Longrightarrow> last (events s') = ErrorReport (creationError p)"
    using e h by (simp add: callErrorHandler_def emit_def)
  show "\<not> m_errorHandler s \<Longrightarrow> last (events s') = FileCreate (mainLogFileName p) False"
    using e h by (simp add: callErrorHandler_def emit_def)
  show "FileCreate (mainLogFileName p) False \<in> set (events s')"
    using e by (simp add: callErrorHandler_def emit_def)
qed

lemma rotateLogFiles_rescan:
  assumes "m_logDir s \<noteq> []" and "\<not> fileExists (files s) (mainLogFileName p)"
  shows "rotateLogFiles p env (mainLogFileName p) s = rotateScan p env s"
  using assms by (simp add: rotateLogFiles_def Let_def)


subsection \<open>A creation that fails\<close>

text \<open>
  Removing a file leaves the others as they are; the scan and the trimming of the list
  remove only files other than the first of the list. So a main file that is missing or
  full makes the scan go on to the creation of a new one.
\<close>

lemma map_of_deleteEntry: "f \<noteq> n \<Longrightarrow> map_of (deleteEntry f fs) n = map_of fs n"
  by (induction fs) (auto simp: deleteEntry_def)

lemma fileExists_deleteEntry: "f \<noteq> n \<Longrightarrow> fileExists (deleteEntry f fs) n = fileExists fs n"
  by (auto simp: fileExists_def deleteEntry_def)

lemma fileSize_deleteEntry: "f \<noteq> n \<Longrightarrow> fileSize (deleteEntry f fs) n = fileSize fs n"
  by (simp add: fileSize_def fileContent_def map_of_deleteEntry)

lemma removeFile_other:
  assumes "removeFile env f s = (ok, s')" and "f \<noteq> n"
  shows "fileExists (files s') n = fileExists (files s) n"
    and "fileSize (files s') n = fileSize (files s) n"
  using assms
  by (auto simp: removeFile_def Let_def emit_def fileExists_deleteEntry fileSize_deleteEntry
      split: if_splits)

lemma callErrorHandler_files: "files (callErrorHandler x s) = files s"
  by (simp add: callErrorHandler_def emit_def)

lemma removeUnknown_other:
  assumes "f \<noteq> n"
  shows "fileExists (files (removeUnknown env f s)) n = fileExists (files s) n"
    and "fileSize (files (removeUnknown env f s)) n = fileSize (files s) n"
proof -
  obtain ok s' where r: "removeFile env f s = (ok, s')" by (cases "removeFile env f s")
  from removeFile_other[OF r assms] r
  show "fileExists (files (removeUnknown env f s)) n = fileExists (files s) n"
    and "fileSize (files (removeUnknown env f s)) n = fileSize (files s) n"
    by (simp_all add: removeUnknown_def callErrorHandler_files)
qed

lemma removeLastFile_other:
  assumes "last fl \<noteq> n"
  shows "fileExists (files (removeLastFile env fl s)) n = fileExists (files s) n"
    and "fileSize (files (removeLastFile env fl s)) n = fileSize (files s) n"
proof -
  obtain ok s' where r: "removeFile env (last fl) s = (ok, s')"
    by (cases "removeFile env (last fl) s")
  from removeFile_other[OF r assms] r
  show "fileExists (files (removeLastFile env fl s)) n = fileExists (files s) n"
    and "fileSize (files (removeLastFile env fl s)) n = fileSize (files s) n"
    by (simp_all add: removeLastFile_def callErrorHandler_files)
qed

lemma filterPostfixes_subset:
  "filterPostfixes env pending kept s = (fl, s') \<Longrightarrow> set fl \<subseteq> set pending \<union> set kept"
proof (induction pending arbitrary: kept s)
  case Nil
  then show ?case by simp
next
  case (Cons f pending)
  show ?case
  proof (cases "toUInt (postfix f) = None")
    case True
    with Cons.prems have "filterPostfixes env pending kept (removeUnknown env f s) = (fl, s')"
      by simp
    from Cons.IH[OF this] show ?thesis by auto
  next
    case False
    with Cons.prems have "filterPostfixes env pending (f # kept) s = (fl, s')" by simp
    from Cons.IH[OF this] show ?thesis by auto
  qed
qed

lemma filterPostfixes_distinct:
  "filterPostfixes env pending kept s = (fl, s') \<Longrightarrow> distinct (pending @ kept) \<Longrightarrow> distinct fl"
proof (induction pending arbitrary: kept s)
  case Nil
  then show ?case by simp
next
  case (Cons f pending)
  show ?case
  proof (cases "toUInt (postfix f) = None")
    case True
    with Cons.prems have "filterPostfixes env pending kept (removeUnknown env f s) = (fl, s')"
      by simp
    from Cons.IH[OF this] Cons.prems(2) show ?thesis by simp
  next
    case False
    with Cons.prems have "filterPostfixes env pending (f # kept) s = (fl, s')" by simp
    from Cons.IH[OF this] Cons.prems(2) show ?thesis by simp
  qed
qed

lemma filterPostfixes_numbered:
  "filterPostfixes env pending kept s = (fl, s') \<Longrightarrow>
   (\<forall>f \<in> set kept. toUInt (postfix f) \<noteq> None) \<Longrightarrow> f \<in> set fl \<Longrightarrow> toUInt (postfix f) \<noteq> None"
proof (induction pending arbitrary: kept s)
  case Nil
  then show ?case by simp
next
  case (Cons g pending)
  show ?case
  proof (cases "toUInt (postfix g) = None")
    case True
    with Cons.prems have "filterPostfixes env pending kept (removeUnknown env g s) = (fl, s')"
      by simp
    from Cons.IH[OF this Cons.prems(2) Cons.prems(3)] show ?thesis .
  next
    case False
    with Cons.prems have a: "filterPostfixes env pending (g # kept) s = (fl, s')" by simp
    have "\<forall>f \<in> set (g # kept). toUInt (postfix f) \<noteq> None" using False Cons.prems(2) by simp
    from Cons.IH[OF a this Cons.prems(3)] show ?thesis .
  qed
qed

lemma filterPostfixes_other:
  "filterPostfixes env pending kept s = (fl, s') \<Longrightarrow> toUInt (postfix n) \<noteq> None \<Longrightarrow>
   fileExists (files s') n = fileExists (files s) n \<and> fileSize (files s') n = fileSize (files s) n"
proof (induction pending arbitrary: kept s)
  case Nil
  then show ?case by simp
next
  case (Cons g pending)
  show ?case
  proof (cases "toUInt (postfix g) = None")
    case True
    with Cons.prems have a: "filterPostfixes env pending kept (removeUnknown env g s) = (fl, s')"
      by simp
    from True Cons.prems(2) have "g \<noteq> n" by auto
    from Cons.IH[OF a Cons.prems(2)] removeUnknown_other[OF this] show ?thesis by simp
  next
    case False
    with Cons.prems have a: "filterPostfixes env pending (g # kept) s = (fl, s')" by simp
    from Cons.IH[OF a Cons.prems(2)] show ?thesis .
  qed
qed

lemma removeRedundant_other:
  "removeRedundant env mx fl s = (fl', s') \<Longrightarrow> distinct fl \<Longrightarrow>
   set fl' \<subseteq> set fl
   \<and> (n \<in> set fl' \<longrightarrow> fileExists (files s') n = fileExists (files s) n
                        \<and> fileSize (files s') n = fileSize (files s) n)"
proof (induction env mx fl s rule: removeRedundant.induct)
  case (1 env maxFiles fileList s)
  show ?case
  proof (cases "maxFiles < length fileList")
    case True
    then have ne: "fileList \<noteq> []" by auto
    from True "1.prems"(1) have r: "removeRedundant env maxFiles (butlast fileList)
        (removeLastFile env fileList s) = (fl', s')"
      by (simp add: removeRedundant.simps[of env maxFiles fileList s])
    have d: "distinct (butlast fileList)" using "1.prems"(2) by (rule distinct_butlast)
    from "1.IH"[OF True r d] have
      sub: "set fl' \<subseteq> set (butlast fileList)"
      and keep: "n \<in> set fl' \<longrightarrow>
             fileExists (files s') n = fileExists (files (removeLastFile env fileList s)) n
             \<and> fileSize (files s') n = fileSize (files (removeLastFile env fileList s)) n"
      by simp_all
    have l: "last fileList \<notin> set (butlast fileList)"
      using "1.prems"(2) ne by (metis append_butlast_last_id distinct_append disjoint_iff list.set_intros(1))
    have "set (butlast fileList) \<subseteq> set fileList" by (meson in_set_butlastD subsetI)
    with sub have s1: "set fl' \<subseteq> set fileList" by blast
    have "n \<in> set fl' \<longrightarrow> fileExists (files s') n = fileExists (files s) n
                        \<and> fileSize (files s') n = fileSize (files s) n"
    proof
      assume n: "n \<in> set fl'"
      with sub l have "last fileList \<noteq> n" by auto
      from removeLastFile_other[OF this] keep n
      show "fileExists (files s') n = fileExists (files s) n
            \<and> fileSize (files s') n = fileSize (files s) n" by simp
    qed
    with s1 show ?thesis by simp
  next
    case False
    with "1.prems"(1) show ?thesis
      by (simp add: removeRedundant.simps[of env maxFiles fileList s])
  qed
qed


lemma rotateScan_creates:
  assumes d: "distinct (map fst (files s))" and m: "0 < m_maxLogFiles s"
    and n: "\<not> fileExists (files s) (mainLogFileName p)
            \<or> m_maxLogFileSize s \<le> fileSize (files s) (mainLogFileName p)"
    and c: "\<not> createOk env (mainLogFileName p)"
  shows "\<exists>s'. rotateScan p env s = Some (False, mainLogFileName p, s') \<and> touchFailed p s s'"
proof -
  from rotateScan_defined[OF m, of p env] obtain ok nm s' where
    r: "rotateScan p env s = Some (ok, nm, s')" by blast
  from rotateScan_cases[OF r] have nm: "nm = mainLogFileName p"
    and t: "\<not> ok \<Longrightarrow> touchFailed p s s'" by (simp_all split: if_splits)
  have "\<not> ok"
  proof
    assume ok: ok
    define el where "el = filter (nameFilter p) (map fst (files s))"
    obtain fl s1 where f: "filterPostfixes env (rev el) [] s = (fl, s1)"
      by (cases "filterPostfixes env (rev el) [] s")
    have 1: "ioStep s s1" using f by (rule ioStep_filterPostfixes)
    show False
    proof (cases "fl = []")
      case True
      obtain ok2 s2 where l: "logFileTouch env (mainLogFileName p) s1 = (ok2, s2)"
        by (cases "logFileTouch env (mainLogFileName p) s1")
      from logFileTouch_cases[OF l] c have "\<not> ok2" by auto
      then have "rotateScan p env s = Some (False, mainLogFileName p, s2)"
        using f l True unfolding rotateScan_def el_def by (simp add: Let_def)
      with r ok show False by simp
    next
      case False
      obtain fl2 s2 where rr: "removeRedundant env (m_maxLogFiles s1) (sortByPostfix fl) s1 = (fl2, s2)"
        by (cases "removeRedundant env (m_maxLogFiles s1) (sortByPostfix fl) s1")
      have 2: "ioStep s1 s2" using rr by (rule ioStep_removeRedundant)
      have 12: "ioStep s s2" by (rule ioStep_trans[OF 1 2])
      from r f rr False obtain first rest where fl2: "fl2 = first # rest"
        unfolding rotateScan_def el_def by (cases fl2) (auto simp: Let_def)
      have del: "distinct el" using d unfolding el_def by (rule distinct_filter)
      then have dfl: "distinct fl" using filterPostfixes_distinct[OF f] by simp
      then have ds: "distinct (sortByPostfix fl)" by (simp add: sortByPostfix_def)
      have "m_maxLogFileSize s2 \<le> fileSize (files s2) first \<or> first \<noteq> mainLogFileName p"
      proof (cases "first = mainLogFileName p")
        case False
        then show ?thesis by simp
      next
        case True
        then have i2: "mainLogFileName p \<in> set fl2" by (simp add: fl2)
        from removeRedundant_other[OF rr ds, of "mainLogFileName p"] i2
        have sub: "set fl2 \<subseteq> set (sortByPostfix fl)"
          and k2: "fileExists (files s2) (mainLogFileName p) = fileExists (files s1) (mainLogFileName p)"
                  "fileSize (files s2) (mainLogFileName p) = fileSize (files s1) (mainLogFileName p)"
          by simp_all
        from sub i2 have ifl: "mainLogFileName p \<in> set fl" by (auto simp: sortByPostfix_def)
        from filterPostfixes_numbered[OF f _ ifl] have num: "toUInt (postfix (mainLogFileName p)) \<noteq> None"
          by simp
        from filterPostfixes_other[OF f num]
        have k1: "fileExists (files s1) (mainLogFileName p) = fileExists (files s) (mainLogFileName p)"
                 "fileSize (files s1) (mainLogFileName p) = fileSize (files s) (mainLogFileName p)"
          by simp_all
        from filterPostfixes_subset[OF f] ifl have "mainLogFileName p \<in> set el" by auto
        then have "fileExists (files s) (mainLogFileName p)"
          by (simp add: el_def fileExists_def)
        with n have "m_maxLogFileSize s \<le> fileSize (files s) (mainLogFileName p)" by simp
        moreover have "m_maxLogFileSize s2 = m_maxLogFileSize s"
          using ioStep_fields[OF 12] by simp
        ultimately show ?thesis using True k1 k2 by simp
      qed
      then have "rotateScan p env s = Some (rotateNewFile p env fl2 s2)"
        using f rr False fl2 unfolding rotateScan_def el_def by (simp add: Let_def)
      with r have g: "rotateNewFile p env fl2 s2 = (ok, nm, s')" by simp
      from rotateNewFile_cases[OF g] ok c show False by simp
    qed
  qed
  with r nm t show ?thesis by simp
qed


subsection \<open>Reachable states\<close>

text \<open>
  \<open>m_maxLogFiles\<close> never falls below 2, so \<open>fileList.first()\<close> is never taken of an
  empty list: in every reachable state the flush and the handler return.
\<close>

lemma flushBuffer_maxLogFiles:
  "flushBuffer p env force s = Some s' \<Longrightarrow> m_maxLogFiles s' = m_maxLogFiles s"
  using flushBuffer_settings[of p env force s s'] by simp

lemma messageHandler_maxLogFiles:
  assumes "messageHandler p env t m s = Some s'"
  shows "m_maxLogFiles s' = m_maxLogFiles s"
proof (cases "NDEBUG p \<and> t = QtDebugMsg")
  case True
  with assms show ?thesis by (simp add: messageHandler_def)
next
  case False
  show ?thesis
  proof (cases "t = QtFatalMsg")
    case True
    show ?thesis
    proof (cases "mayWrite m s")
      case w: True
      with assms True obtain s2 where
        f: "flushBuffer p env True (enqueue (formattedMessage QtFatalMsg m) s) = Some s2"
        and e: "s' = fatalOutput m (sendLog QtFatalMsg m s2)"
        by (auto simp: messageHandler_fatal)
      from flushBuffer_maxLogFiles[OF f] e show ?thesis
        by (simp add: fatalOutput_def sendLog_def emit_def enqueue_def)
    next
      case w: False
      with assms True have "s' = fatalOutput m s" by (simp add: messageHandler_fatal)
      then show ?thesis by (simp add: fatalOutput_def emit_def)
    qed
  next
    case nf: False
    define c where "c = consoleOutput t m s"
    define q where "q = enqueue (formattedMessage t m) c"
    have k: "m_maxLogFiles c = m_maxLogFiles s" "m_maxLogFiles q = m_maxLogFiles s"
      by (simp_all add: c_def q_def consoleOutput_fields enqueue_fields)
    from assms False nf have
      "s' = c \<or> s' = sendLog t m c \<or> s' = sendLog t m q
       \<or> (\<exists>s2. flushBuffer p env (t = QtCriticalMsg) q = Some s2 \<and> s' = sendLog t m s2)"
      unfolding c_def q_def by (auto simp: messageHandler_nonfatal split: if_splits)
    then show ?thesis
    proof (elim disjE exE conjE)
      fix s2 assume "flushBuffer p env (t = QtCriticalMsg) q = Some s2" "s' = sendLog t m s2"
      with flushBuffer_maxLogFiles[of p env "t = QtCriticalMsg" q s2] k show ?thesis
        by (simp add: sendLog_def emit_def)
    qed (simp_all add: k sendLog_def emit_def)
  qed
qed

lemma ensureDirectoryWritable_maxLogFiles:
  "ensureDirectoryWritable env s = (ok, s') \<Longrightarrow> m_maxLogFiles s' = m_maxLogFiles s"
  by (auto simp: ensureDirectoryWritable_def removeFile_def emit_def Let_def
      split: if_splits prod.splits)

lemma initLogging_maxLogFiles:
  assumes "initLogging p env logDir flushTime maxFiles maxFileSize s = Some (ok, s')"
    and "2 \<le> m_maxLogFiles s"
  shows "2 \<le> m_maxLogFiles s'"
proof -
  obtain w s1 where e: "ensureDirectoryWritable env s = (w, s1)"
    by (cases "ensureDirectoryWritable env s")
  from ensureDirectoryWritable_maxLogFiles[OF e] assms(2) have 1: "2 \<le> m_maxLogFiles s1" by simp
  show ?thesis
  proof (cases w)
    case False
    with assms(1) e have "s' = callErrorHandler ''Log directory is not writable'' s1"
      by (simp add: initLogging_def Let_def)
    with 1 show ?thesis by (simp add: callErrorHandler_def emit_def)
  next
    case True
    define d where "d = (if logDir \<noteq> [] then normalizePath logDir else applicationDirPath p @ ''/'')"
    from assms(1) e True obtain ok2 n s2 where
      r: "rotateLogFiles p env (m_logFileName s1) (s1\<lparr>m_logDir := d\<rparr>) = Some (ok2, n, s2)"
      by (auto simp: initLogging_def Let_def d_def split: option.splits)
    from rotateLogFiles_ioStep[OF r] have 2: "m_maxLogFiles s2 = m_maxLogFiles s1"
      by (simp add: ioStep_fields)
    from assms(1) e True r 1 2 show ?thesis
      by (auto simp: initLogging_def Let_def d_def emit_def split: if_splits)
  qed
qed

lemma reachable_maxLogFiles: "reachable p s \<Longrightarrow> 2 \<le> m_maxLogFiles s"
proof (induction rule: reachable.induct)
  case (start fs)
  show ?case by (simp add: initialState_def)
next
  case (init s env logDir flushTime maxFiles maxFileSize ok s')
  from initLogging_maxLogFiles[OF init.hyps(2) init.IH] show ?case .
next
  case (message s env t m s')
  from messageHandler_maxLogFiles[OF message.hyps(2)] message.IH show ?case by simp
next
  case (flush s env s')
  from flushBuffer_maxLogFiles[OF flush.hyps(2)] flush.IH show ?case by simp
qed (simp_all add: setMinLevels_def setCleanLogCategory_def)

lemma reachable_flush_returns:
  "reachable p s \<Longrightarrow> \<exists>s'. flushBuffer p env force s = Some s'"
  using reachable_maxLogFiles[of p s] flushBuffer_defined[of s p env force] by simp

lemma reachable_handler_returns:
  assumes "reachable p s"
  shows "\<exists>s'. messageHandler p env t m s = Some s'"
proof -
  from reachable_maxLogFiles[OF assms] have m: "0 < m_maxLogFiles s" by simp
  have 1: "\<exists>s'. flushBuffer p env f (enqueue l s) = Some s'" for f l
    using m flushBuffer_defined[of "enqueue l s" p env f] by (simp add: enqueue_fields)
  have 2: "\<exists>s'. flushBuffer p env f (enqueue l (consoleOutput t m s)) = Some s'" for f l
    using m flushBuffer_defined[of "enqueue l (consoleOutput t m s)" p env f]
    by (simp add: enqueue_fields consoleOutput_fields)
  show ?thesis
  proof (cases "NDEBUG p \<and> t = QtDebugMsg")
    case True
    then show ?thesis by (simp add: messageHandler_def)
  next
    case False
    show ?thesis
    proof (cases "t = QtFatalMsg")
      case True
      with 1[of True "formattedMessage QtFatalMsg m"] show ?thesis
        by (auto simp: messageHandler_fatal)
    next
      case nf: False
      with False 2[of "t = QtCriticalMsg" "formattedMessage t m"] show ?thesis
        by (auto simp: messageHandler_nonfatal)
    qed
  qed
qed


text \<open>
  The averages never leave the range of the finite \<open>float\<close> values: the file operations
  leave them alone, and a blend of an average within \<open>2 ^ 35\<close> and a sample within
  \<open>2 ^ 34\<close> is within \<open>2 ^ 35\<close> again.
\<close>

lemma rotationTime_emit: "m_logRotationTime (emit e s) = m_logRotationTime s"
  by (simp add: emit_def)

lemma rotationTime_callErrorHandler:
  "m_logRotationTime (callErrorHandler x s) = m_logRotationTime s"
  by (simp add: callErrorHandler_def emit_def)

lemma rotationTime_removeFile:
  "removeFile env n s = (ok, s') \<Longrightarrow> m_logRotationTime s' = m_logRotationTime s"
  by (auto simp: removeFile_def Let_def emit_def)

lemma rotationTime_renameFile:
  "renameFile env a b s = (ok, s') \<Longrightarrow> m_logRotationTime s' = m_logRotationTime s"
  by (auto simp: renameFile_def Let_def emit_def)

lemma rotationTime_logFileTouch:
  "logFileTouch env n s = (ok, s') \<Longrightarrow> m_logRotationTime s' = m_logRotationTime s"
  by (auto simp: logFileTouch_def callErrorHandler_def emit_def split: if_splits)

lemma rotationTime_removeUnknown:
  "m_logRotationTime (removeUnknown env f s) = m_logRotationTime s"
  by (cases "removeFile env f s")
    (auto simp: removeUnknown_def rotationTime_callErrorHandler dest: rotationTime_removeFile)

lemma rotationTime_removeLastFile:
  "m_logRotationTime (removeLastFile env fl s) = m_logRotationTime s"
  by (cases "removeFile env (last fl) s")
    (auto simp: removeLastFile_def rotationTime_callErrorHandler dest: rotationTime_removeFile)

lemma rotationTime_filterPostfixes:
  "filterPostfixes env pending kept s = (fl, s') \<Longrightarrow> m_logRotationTime s' = m_logRotationTime s"
  by (induction pending arbitrary: kept s)
    (auto simp: rotationTime_removeUnknown split: if_splits)

lemma rotationTime_removeRedundant:
  "removeRedundant env mx fl s = (fl', s') \<Longrightarrow> m_logRotationTime s' = m_logRotationTime s"
proof (induction env mx fl s rule: removeRedundant.induct)
  case (1 env maxFiles fileList s)
  then show ?case
    by (cases "maxFiles < length fileList")
      (simp_all add: removeRedundant.simps[of env maxFiles fileList s] rotationTime_removeLastFile)
qed

lemma rotationTime_temporaryRename:
  "temporaryRename env fl s = (fl', s') \<Longrightarrow> m_logRotationTime s' = m_logRotationTime s"
proof (induction fl arbitrary: s fl' s')
  case Nil
  then show ?case by simp
next
  case (Cons f fl)
  obtain ok s1 where r: "renameFile env f (f @ ''.temp'') s = (ok, s1)"
    by (cases "renameFile env f (f @ ''.temp'') s")
  note k = rotationTime_renameFile[OF r]
  show ?case
  proof (cases ok)
    case True
    obtain fl2 s2 where t: "temporaryRename env fl s1 = (fl2, s2)"
      by (cases "temporaryRename env fl s1")
    with Cons.prems r True have "s' = s2" by simp
    with Cons.IH[OF t] k show ?thesis by simp
  next
    case False
    define s1' where "s1' = callErrorHandler (''Log file '' @ dq @ f @ dq @ '' renaming error'') s1"
    obtain fl2 s2 where t: "temporaryRename env fl s1' = (fl2, s2)"
      by (cases "temporaryRename env fl s1'")
    with Cons.prems r False have "s' = s2" by (simp add: s1'_def)
    with Cons.IH[OF t] k show ?thesis by (simp add: s1'_def rotationTime_callErrorHandler)
  qed
qed

lemma rotationTime_linearRename:
  "m_logRotationTime (linearRename p env fl i s) = m_logRotationTime s"
proof (induction i arbitrary: s)
  case 0
  show ?case by simp
next
  case (Suc i)
  obtain ok s1 where r: "renameFile env (fl ! i) (indexedLogFileName p (i + 1)) s = (ok, s1)"
    by (cases "renameFile env (fl ! i) (indexedLogFileName p (i + 1)) s")
  note k = rotationTime_renameFile[OF r]
  show ?case using r k Suc.IH
    by (simp add: rotationTime_callErrorHandler)
qed

lemma rotateElapsed_bounded: "\<bar>rotateElapsed env\<bar> \<le> 2 ^ 34"
  unfolding rotateElapsed_def by (rule elapsedSeconds_bounded)

lemma flushElapsed_bounded: "\<bar>flushElapsed env\<bar> \<le> 2 ^ 34"
  unfolding flushElapsed_def by (rule elapsedSeconds_bounded)

lemma rotationTime_rotateFinish:
  assumes "rotateFinish p env s = (ok, n, s')" and "\<bar>m_logRotationTime s\<bar> \<le> 2 ^ 35"
  shows "\<bar>m_logRotationTime s'\<bar> \<le> 2 ^ 35"
proof -
  from assms(1) have
    "m_logRotationTime s' = (if \<not> firstTime s
        then rotationTimeEMA (m_logRotationTime s) (rotateElapsed env) else m_logRotationTime s)"
    by (auto simp: rotateFinish_def Let_def emit_def split: if_splits)
  with assms(2) rotationTimeEMA_bounded[OF assms(2) rotateElapsed_bounded, of env]
  show ?thesis by simp
qed

lemma rotationTime_rotateNewFile:
  assumes a: "rotateNewFile p env fl s = (ok, n, s')" and b: "\<bar>m_logRotationTime s\<bar> \<le> 2 ^ 35"
  shows "\<bar>m_logRotationTime s'\<bar> \<le> 2 ^ 35"
proof -
  define fl1 where "fl1 = (if m_maxLogFiles s \<le> length fl then butlast fl else fl)"
  define s1 where "s1 = (if m_maxLogFiles s \<le> length fl then removeLastFile env fl s else s)"
  define obstacle where "obstacle = (indexedLogFileName p (length fl1) \<in> set fl1)"
  obtain fl2 s2 where t: "(if obstacle then temporaryRename env fl1 s1 else (fl1, s1)) = (fl2, s2)"
    by (cases "if obstacle then temporaryRename env fl1 s1 else (fl1, s1)")
  define s3 where "s3 = linearRename p env fl2 (length fl2) s2"
  obtain ok4 s4 where l: "logFileTouch env (mainLogFileName p) s3 = (ok4, s4)"
    by (cases "logFileTouch env (mainLogFileName p) s3")
  have 1: "m_logRotationTime s1 = m_logRotationTime s"
    by (simp add: s1_def rotationTime_removeLastFile)
  have 2: "m_logRotationTime s2 = m_logRotationTime s1"
    using t by (auto split: if_splits dest: rotationTime_temporaryRename)
  have 3: "m_logRotationTime s3 = m_logRotationTime s2"
    by (simp add: s3_def rotationTime_linearRename)
  have 4: "m_logRotationTime s4 = m_logRotationTime s3"
    using l by (rule rotationTime_logFileTouch)
  have r: "rotateNewFile p env fl s =
           (if \<not> ok4 then (False, mainLogFileName p, s4) else rotateFinish p env s4)"
    using t l unfolding rotateNewFile_def fl1_def s1_def obstacle_def s3_def
    by (auto simp: Let_def split: if_splits prod.splits)
  from b 1 2 3 4 have b4: "\<bar>m_logRotationTime s4\<bar> \<le> 2 ^ 35" by simp
  show ?thesis
  proof (cases ok4)
    case True
    with a r have "rotateFinish p env s4 = (ok, n, s')" by simp
    from rotationTime_rotateFinish[OF this b4] show ?thesis .
  next
    case False
    with a r have "s' = s4" by simp
    with b4 show ?thesis by simp
  qed
qed

lemma rotationTime_rotateScan:
  assumes a: "rotateScan p env s = Some (ok, n, s')" and b: "\<bar>m_logRotationTime s\<bar> \<le> 2 ^ 35"
  shows "\<bar>m_logRotationTime s'\<bar> \<le> 2 ^ 35"
proof -
  define el where "el = filter (nameFilter p) (map fst (files s))"
  obtain fl s1 where f: "filterPostfixes env (rev el) [] s = (fl, s1)"
    by (cases "filterPostfixes env (rev el) [] s")
  from rotationTime_filterPostfixes[OF f] b have b1: "\<bar>m_logRotationTime s1\<bar> \<le> 2 ^ 35" by simp
  show ?thesis
  proof (cases "fl = []")
    case True
    obtain ok2 s2 where l: "logFileTouch env (mainLogFileName p) s1 = (ok2, s2)"
      by (cases "logFileTouch env (mainLogFileName p) s1")
    from rotationTime_logFileTouch[OF l] b1 have b2: "\<bar>m_logRotationTime s2\<bar> \<le> 2 ^ 35" by simp
    have r: "rotateScan p env s =
             (if \<not> ok2 then Some (False, mainLogFileName p, s2) else Some (rotateFinish p env s2))"
      using f l True unfolding rotateScan_def el_def by (simp add: Let_def)
    show ?thesis
    proof (cases ok2)
      case ok2: True
      with a r have "rotateFinish p env s2 = (ok, n, s')" by simp
      from rotationTime_rotateFinish[OF this b2] show ?thesis .
    next
      case False
      with a r have "s' = s2" by simp
      with b2 show ?thesis by simp
    qed
  next
    case False
    obtain fl2 s2 where rr: "removeRedundant env (m_maxLogFiles s1) (sortByPostfix fl) s1 = (fl2, s2)"
      by (cases "removeRedundant env (m_maxLogFiles s1) (sortByPostfix fl) s1")
    from rotationTime_removeRedundant[OF rr] b1 have b2: "\<bar>m_logRotationTime s2\<bar> \<le> 2 ^ 35" by simp
    from a f rr False obtain first rest where fl2: "fl2 = first # rest"
      unfolding rotateScan_def el_def by (cases fl2) (auto simp: Let_def)
    from a f rr False fl2 have
      "rotateNewFile p env fl2 s2 = (ok, n, s') \<or> rotateFinish p env s2 = (ok, n, s')"
      unfolding rotateScan_def el_def by (auto simp: Let_def split: if_splits)
    with rotationTime_rotateNewFile[OF _ b2] rotationTime_rotateFinish[OF _ b2]
    show ?thesis by blast
  qed
qed

lemma rotateLogFiles_averagesBounded:
  assumes a: "rotateLogFiles p env n0 s = Some (ok, n, s')" and b: "averagesBounded s"
  shows "averagesBounded s'"
proof -
  from rotateLogFiles_ioStep[OF a] have f: "m_logBufferFlushTime s' = m_logBufferFlushTime s"
    by (simp add: ioStep_fields)
  from b have r: "\<bar>m_logRotationTime s\<bar> \<le> 2 ^ 35" by (simp add: averagesBounded_def)
  have "\<bar>m_logRotationTime s'\<bar> \<le> 2 ^ 35"
  proof (cases "m_logDir s = []")
    case True
    with a have "s' = callErrorHandler ''Log directory is not set'' s"
      by (simp add: rotateLogFiles_def)
    with r show ?thesis by (simp add: rotationTime_callErrorHandler)
  next
    case False
    with a have "rotateScan p env s = Some (ok, n, s') \<or> rotateFinish p env s = (ok, n, s')"
      by (auto simp: rotateLogFiles_def Let_def split: if_splits)
    with rotationTime_rotateScan[OF _ r] rotationTime_rotateFinish[OF _ r]
    show ?thesis by blast
  qed
  with f b show ?thesis by (simp add: averagesBounded_def)
qed


lemma averagesBounded_updates:
  "averagesBounded (emit e s) = averagesBounded s"
  "averagesBounded (callErrorHandler x s) = averagesBounded s"
  "averagesBounded (requeue b s) = averagesBounded s"
  "averagesBounded (restartTimer s) = averagesBounded s"
  "averagesBounded (swapBuffer env s) = averagesBounded s"
  "averagesBounded (enqueue l s) = averagesBounded s"
  "averagesBounded (consoleOutput t m s) = averagesBounded s"
  "averagesBounded (sendLog t m s) = averagesBounded s"
  "averagesBounded (fatalOutput m s) = averagesBounded s"
  "averagesBounded (s\<lparr>m_logFileName := n\<rparr>) = averagesBounded s"
  "averagesBounded (s\<lparr>m_logDir := d\<rparr>) = averagesBounded s"
  "averagesBounded (s\<lparr>files := fs\<rparr>) = averagesBounded s"
  "averagesBounded (s\<lparr>m_errorHandler := h\<rparr>) = averagesBounded s"
  "averagesBounded (setMinLevels outLevel fileLevel s) = averagesBounded s"
  "averagesBounded (setCleanLogCategory c w s) = averagesBounded s"
  by (simp_all add: averagesBounded_def emit_def callErrorHandler_def requeue_def
      restartTimer_def swapBuffer_def enqueue_def consoleOutput_def sendLog_def fatalOutput_def
      setMinLevels_def setCleanLogCategory_def Let_def)

lemma flushWrite_averagesBounded:
  assumes "averagesBounded s"
  shows "averagesBounded (flushWrite p env force n ls s)"
proof -
  define s6 where "s6 = emit (FileOpen n True) (s\<lparr>files := appendEntry n [] (files s)\<rparr>)"
  obtain fs es where w: "writeLines env n ls s6 = s6\<lparr>files := fs, events := es\<rparr>"
    using writeLines_frame by blast
  have "m_logRotationTime (flushWrite p env force n ls s) = m_logRotationTime s"
    "m_logBufferFlushTime (flushWrite p env force n ls s)
     = flushTimeEMA (m_logBufferFlushTime s) (flushElapsed env)"
    unfolding flushWrite_def Let_def s6_def[symmetric] w
    by (simp_all add: s6_def emit_def)
  with assms flushTimeEMA_bounded[OF _ flushElapsed_bounded, of "m_logBufferFlushTime s" env]
  show ?thesis by (simp add: averagesBounded_def)
qed

lemma flushBuffer_averagesBounded:
  assumes a: "flushBuffer p env force s = Some s'" and b: "averagesBounded s"
  shows "averagesBounded s'"
proof (cases "m_logBuffer s = []")
  case True
  with a have "s' = restartTimer s" by (simp add: flushBuffer_unfold)
  with b show ?thesis by (simp add: averagesBounded_updates)
next
  case False
  with a obtain ok n s1 where
    r: "rotateLogFiles p env (m_logFileName s) (swapBuffer env (restartTimer s)) = Some (ok, n, s1)"
    by (auto simp: flushBuffer_unfold split: option.splits)
  from b have "averagesBounded (swapBuffer env (restartTimer s))"
    by (simp add: averagesBounded_updates)
  from rotateLogFiles_averagesBounded[OF r this] have 1: "averagesBounded (s1\<lparr>m_logFileName := n\<rparr>)"
    by (simp add: averagesBounded_updates)
  from a False r have
    "s' = requeue (m_logBuffer s) (s1\<lparr>m_logFileName := n\<rparr>)
     \<or> s' = requeue (m_logBuffer s)
               (callErrorHandler (''Log file '' @ dq @ n @ dq @ '' open error: '' @ openError env n)
                  (emit (FileOpen n False) (s1\<lparr>m_logFileName := n\<rparr>)))
     \<or> s' = flushWrite p env force n (m_logBuffer s) (s1\<lparr>m_logFileName := n\<rparr>)"
    by (auto simp: flushBuffer_unfold split: if_splits)
  with 1 flushWrite_averagesBounded[OF 1] show ?thesis
    by (auto simp: averagesBounded_updates)
qed

lemma messageHandler_averagesBounded:
  assumes a: "messageHandler p env t m s = Some s'" and b: "averagesBounded s"
  shows "averagesBounded s'"
proof (cases "NDEBUG p \<and> t = QtDebugMsg")
  case True
  with a b show ?thesis by (simp add: messageHandler_def)
next
  case False
  show ?thesis
  proof (cases "t = QtFatalMsg")
    case True
    show ?thesis
    proof (cases "mayWrite m s")
      case w: True
      with a True obtain s2 where
        f: "flushBuffer p env True (enqueue (formattedMessage QtFatalMsg m) s) = Some s2"
        and e: "s' = fatalOutput m (sendLog QtFatalMsg m s2)"
        by (auto simp: messageHandler_fatal)
      from flushBuffer_averagesBounded[OF f] b e show ?thesis
        by (simp add: averagesBounded_updates)
    next
      case w: False
      with a True have "s' = fatalOutput m s" by (simp add: messageHandler_fatal)
      with b show ?thesis by (simp add: averagesBounded_updates)
    qed
  next
    case nf: False
    define c where "c = consoleOutput t m s"
    define q where "q = enqueue (formattedMessage t m) c"
    have k: "averagesBounded c" "averagesBounded q"
      using b by (simp_all add: c_def q_def averagesBounded_updates)
    from a False nf have
      "s' = c \<or> s' = sendLog t m c \<or> s' = sendLog t m q
       \<or> (\<exists>s2. flushBuffer p env (t = QtCriticalMsg) q = Some s2 \<and> s' = sendLog t m s2)"
      unfolding c_def q_def by (auto simp: messageHandler_nonfatal split: if_splits)
    then show ?thesis
    proof (elim disjE exE conjE)
      fix s2 assume "flushBuffer p env (t = QtCriticalMsg) q = Some s2" "s' = sendLog t m s2"
      with flushBuffer_averagesBounded[of p env "t = QtCriticalMsg" q s2] k show ?thesis
        by (simp add: averagesBounded_updates)
    qed (simp_all add: k averagesBounded_updates)
  qed
qed

lemma ensureDirectoryWritable_averagesBounded:
  "ensureDirectoryWritable env s = (ok, s') \<Longrightarrow> averagesBounded s' = averagesBounded s"
  by (auto simp: ensureDirectoryWritable_def removeFile_def emit_def Let_def averagesBounded_def
      split: if_splits prod.splits)

lemma initLogging_averagesBounded:
  assumes a: "initLogging p env logDir flushTime maxFiles maxFileSize s = Some (ok, s')"
    and b: "averagesBounded s"
  shows "averagesBounded s'"
proof -
  obtain w s1 where e: "ensureDirectoryWritable env s = (w, s1)"
    by (cases "ensureDirectoryWritable env s")
  from ensureDirectoryWritable_averagesBounded[OF e] b have 1: "averagesBounded s1" by simp
  show ?thesis
  proof (cases w)
    case False
    with a e have "s' = callErrorHandler ''Log directory is not writable'' s1"
      by (simp add: initLogging_def Let_def)
    with 1 show ?thesis by (simp add: averagesBounded_updates)
  next
    case True
    define d where "d = (if logDir \<noteq> [] then normalizePath logDir else applicationDirPath p @ ''/'')"
    from a e True obtain ok2 n s2 where
      r: "rotateLogFiles p env (m_logFileName s1) (s1\<lparr>m_logDir := d\<rparr>) = Some (ok2, n, s2)"
      by (auto simp: initLogging_def Let_def d_def split: option.splits)
    from 1 have "averagesBounded (s1\<lparr>m_logDir := d\<rparr>)" by (simp add: averagesBounded_updates)
    from rotateLogFiles_averagesBounded[OF r this] have 2: "averagesBounded s2" .
    from a e True r 2 show ?thesis
      by (auto simp: initLogging_def Let_def d_def emit_def averagesBounded_def split: if_splits)
  qed
qed

lemma reachable_averagesBounded: "reachable p s \<Longrightarrow> averagesBounded s"
proof (induction rule: reachable.induct)
  case (start fs)
  show ?case by (simp add: initialState_def averagesBounded_def)
next
  case (init s env logDir flushTime maxFiles maxFileSize ok s')
  from initLogging_averagesBounded[OF init.hyps(2) init.IH] show ?case .
next
  case (message s env t m s')
  from messageHandler_averagesBounded[OF message.hyps(2) message.IH] show ?case .
next
  case (flush s env s')
  from flushBuffer_averagesBounded[OF flush.hyps(2) flush.IH] show ?case .
qed (simp_all add: averagesBounded_updates)


subsection \<open>Evaluating the concrete runs\<close>

lemma releaseBuild_simps:
  "mainLogFileName releaseBuild = ''app_0.log''" "NDEBUG releaseBuild"
  "applicationName releaseBuild = ''app''"
  by (simp_all add: mainLogFileName_def releaseBuild_def)

lemma rotate_fast:
  "rotateLogFiles releaseBuild noFailure ''app_0.log''
     (swapBuffer noFailure (restartTimer (running oneFile b)))
   = Some (True, ''app_0.log'',
        (running oneFile [])\<lparr>m_logRotationTime := 1\<rparr>)"
  by (simp add: rotateLogFiles_def rotateFinish_def swapBuffer_def restartTimer_def running_def
      initialState_def releaseBuild_simps noFailure_def fileExists_def fileSize_def
      fileContent_def eol_def rotationTimeEMA_def Let_def oneFile_def rotateElapsed_def
      elapsedSeconds_values)

lemma noFailure_simps:
  "createOk noFailure n" "openOk noFailure n" "writeOk noFailure l" "removeOk noFailure n"
  "renameOk noFailure a b" "meanwhile noFailure = []" "flushElapsed noFailure = 1"
  "rotateElapsed noFailure = 1" "directoryOk noFailure"
  by (simp_all add: noFailure_def flushElapsed_def rotateElapsed_def elapsedSeconds_values)

lemma createFails_simps:
  "\<not> createOk createFails n" "openOk createFails n" "writeOk createFails l"
  "meanwhile createFails = []" "rotateElapsed createFails = 1"
  by (simp_all add: createFails_def noFailure_def rotateElapsed_def elapsedSeconds_values)

lemma running_simps:
  "m_logDir (running fs b) = ''/var/log/app/''" "m_logFileName (running fs b) = ''app_0.log''"
  "m_logBuffer (running fs b) = b" "m_maxLogFiles (running fs b) = 10"
  "m_errorHandler (running fs b)" "files (running fs b) = fs" "events (running fs b) = []"
  "\<not> m_logBufferEnabled (running fs b)" "m_logBufferFlushTime (running fs b) = 0"
  "m_cleanLogCategory (running fs b) = []" "m_minOutFileLevel (running fs b) = QtDebugMsg"
  "m_minOutLevel (running fs b) = QtDebugMsg"
  by (simp_all add: running_def initialState_def)






lemma linkDown_simps:
  "category linkDown = ''net''" "msg linkDown = ''link down''"
  "formattedMessage QtFatalMsg linkDown = ''[12:00:00] [FTL] [net] link down''"
  "formattedMessage QtInfoMsg linkDown = ''[12:00:00] [INF] [net] link down''"
  "formattedMessage QtWarningMsg linkDown = ''[12:00:00] [WRN] [net] link down''"
  "messageOf QtFatalMsg linkDown = ''link down''"
  "messageOf QtInfoMsg linkDown = ''link down''"
  "messageOf QtWarningMsg linkDown = ''link down''"
  by (simp_all add: linkDown_def formattedMessage_def levelTag_def messageOf_def)

lemma rotate_running_oneFile:
  "rotateLogFiles releaseBuild env ''app_0.log'' (running oneFile b)
   = Some (True, ''app_0.log'',
        (running oneFile b)\<lparr>m_logRotationTime := rotationTimeEMA 0 (rotateElapsed env)\<rparr>)"
  by (simp add: rotateLogFiles_def rotateFinish_def running_def
      initialState_def releaseBuild_simps fileExists_def fileSize_def
      fileContent_def eol_def Let_def oneFile_def)

lemma rotate_fast_path:
  assumes "m_logDir s \<noteq> []" and "fileExists (files s) (mainLogFileName p)"
    and "fileSize (files s) (mainLogFileName p) < m_maxLogFileSize s"
  shows "rotateLogFiles p env (mainLogFileName p) s = Some (rotateFinish p env s)"
  using assms by (simp add: rotateLogFiles_def Let_def mainLogFileName_def)

lemma rotateFinish_release:
  assumes "NDEBUG p"
  shows "rotateFinish p env s =
           (True, mainLogFileName p,
            s\<lparr>m_logRotationTime := (if firstTime s then m_logRotationTime s
                                      else rotationTimeEMA (m_logRotationTime s) (rotateElapsed env)),
              firstTime := False\<rparr>)"
  using assms by (simp add: rotateFinish_def Let_def)





lemmas string_defs = toUInt_def postfix_def mid_def indexOf_def lastIndexOf_def isDigit_def
  digitValue_def nameFilter_def sortByPostfix_def postfixNumber_def

lemma number_small:
  "number 0 = ''0''" "number (Suc 0) = ''1''" "number (Suc (Suc 0)) = ''2''"
  "number (Suc (Suc (Suc 0))) = ''3''"
  by (simp_all add: number.simps[of 0] number.simps[of "Suc n" for n] digitChar_def)

lemma indexed_names:
  "indexedLogFileName releaseBuild (Suc 0) = ''app_1.log''"
  "indexedLogFileName releaseBuild (Suc (Suc 0)) = ''app_2.log''"
  "indexedLogFileName releaseBuild (Suc (Suc (Suc 0))) = ''app_3.log''"
  by (simp_all add: indexedLogFileName_def releaseBuild_simps number_small)

lemma scan_gaps:
  "filterPostfixes env (rev (filter (nameFilter releaseBuild) (map fst gapsDirectory))) [] s
   = ([''app_2.log'', ''app_5.log'', ''app_6.log''], s)"
  by (simp add: gapsDirectory_def releaseBuild_simps string_defs)

lemma sort_gaps:
  "sortByPostfix [''app_2.log'', ''app_5.log'', ''app_6.log'']
   = [''app_2.log'', ''app_5.log'', ''app_6.log'']"
  by (simp add: string_defs)

lemma keep_three: "removeRedundant env 10 [a, b, c] s = ([a, b, c], s)"
  by (simp add: removeRedundant.simps[of env 10 "[a, b, c]"])

lemma newFile_gaps:
  "rotateNewFile releaseBuild noFailure [''app_2.log'', ''app_5.log'', ''app_6.log'']
     (running gapsDirectory [])
   = (True, ''app_0.log'',
      (running [(''app_1.log'', ''a''), (''app_5.log'', ''b''), (''app_3.log'', ''c''),
                (''app_0.log'', [])] [])
        \<lparr>m_logRotationTime := 1,
          events := [FileRename ''app_6.log'' ''app_3.log'' True,
                     FileRename ''app_5.log'' ''app_2.log'' False,
                     ErrorReport (''Log file '' @ dq @ ''app_5.log'' @ dq @ '' renaming error''),
                     FileRename ''app_2.log'' ''app_1.log'' True,
                     FileCreate ''app_0.log'' True]\<rparr>)"
  by (simp add: rotateNewFile_def rotateFinish_def running_def initialState_def gapsDirectory_def
      noFailure_simps releaseBuild_simps indexed_names rotationTimeEMA_def
      fileExists_def renameFile_def renameEntry_def logFileTouch_def truncateEntry_def
      emit_def callErrorHandler_def Let_def)

lemma normalize_example: "normalizePath ''/var/log/app'' = ''/var/log/app/''"
  by (simp add: normalizePath_def Let_def)

lemma probe_three:
  "ensureDirectoryWritable noFailure (initialState threeFiles)
   = (True, (initialState threeFiles)
              \<lparr>events := [FileCreate ''test.tmp'' True, FileRemove ''test.tmp'' True]\<rparr>)"
  by (simp add: ensureDirectoryWritable_def noFailure_simps initialState_def threeFiles_def
      fileExists_def removeFile_def deleteEntry_def truncateEntry_def emit_def Let_def)

lemma scan_three:
  "filterPostfixes env (rev (filter (nameFilter releaseBuild) (map fst threeFiles))) [] s
   = ([''app_0.log'', ''app_1.log'', ''app_2.log''], s)"
  by (simp add: threeFiles_def releaseBuild_simps string_defs)

lemma sort_three:
  "sortByPostfix [''app_0.log'', ''app_1.log'', ''app_2.log'']
   = [''app_0.log'', ''app_1.log'', ''app_2.log'']"
  by (simp add: string_defs)

lemma threeFiles_simps:
  "fileSize threeFiles ''app_0.log'' = 1" "fileExists threeFiles ''app_0.log''"
  "map fst threeFiles = [''app_0.log'', ''app_1.log'', ''app_2.log'']"
  by (simp_all add: threeFiles_def fileExists_def fileSize_def fileContent_def)

lemma probed_simps:
  "m_logDir probed = ''/var/log/app/''" "files probed = threeFiles" "m_maxLogFiles probed = 10"
  "m_maxLogFileSize probed = 10485760" "m_logFileName probed = []" "firstTime probed"
  by (simp_all add: probed_def initialState_def)

lemma first_rotation:
  "rotateLogFiles releaseBuild noFailure [] probed
   = Some (True, ''app_0.log'', probed\<lparr>firstTime := False\<rparr>)"
proof -
  have "rotateLogFiles releaseBuild noFailure [] probed = rotateScan releaseBuild noFailure probed"
    by (simp add: rotateLogFiles_def probed_simps)
  also have "\<dots> = Some (rotateFinish releaseBuild noFailure probed)"
    by (simp add: rotateScan_def probed_simps scan_three sort_three keep_three releaseBuild_simps
        threeFiles_simps(1))
  also have "rotateFinish releaseBuild noFailure probed
             = (True, ''app_0.log'', probed\<lparr>firstTime := False\<rparr>)"
    by (simp add: rotateFinish_release releaseBuild_simps probed_simps)
  finally show ?thesis .
qed

lemma initLogging_three:
  "initLogging releaseBuild noFailure ''/var/log/app'' 500 2 0 (initialState threeFiles)
   = Some (True, initialised)"
proof -
  have "(initialState threeFiles)
              \<lparr>events := [FileCreate ''test.tmp'' True, FileRemove ''test.tmp'' True],
                m_logDir := ''/var/log/app/''\<rparr> = probed"
    by (simp add: probed_def)
  moreover have "m_logFileName ((initialState threeFiles)
              \<lparr>events := [FileCreate ''test.tmp'' True, FileRemove ''test.tmp'' True]\<rparr>) = []"
    by (simp add: initialState_def)
  ultimately have "initLogging releaseBuild noFailure ''/var/log/app'' 500 2 0 (initialState threeFiles)
        = Some (True, probed\<lparr>firstTime := False, m_logFileName := ''app_0.log'',
                   m_maxLogFiles := 2, m_maxLogFileSize := 100 * 1024,
                   m_logBufferEnabled := False, messageHandlerInstalled := True\<rparr>)"
    by (simp add: initLogging_def normalize_example probe_three first_rotation Let_def)
  also have "probed\<lparr>firstTime := False, m_logFileName := ''app_0.log'',
                   m_maxLogFiles := 2, m_maxLogFileSize := 100 * 1024,
                   m_logBufferEnabled := False, messageHandlerInstalled := True\<rparr> = initialised"
    by (simp add: probed_def initialised_def initialState_def)
  finally show ?thesis .
qed


lemma fullFile_simps:
  "fileSize fullFile ''app_0.log'' = 102400" "fileExists fullFile ''app_0.log''"
  "map fst fullFile = [''app_0.log'']" "distinct (map fst fullFile)"
  by (simp_all add: fullFile_def fileExists_def fileSize_def fileContent_def)

lemma rotating_simps:
  "m_logDir rotating = ''/var/log/app/''" "files rotating = fullFile" "m_maxLogFiles rotating = 10"
  "m_maxLogFileSize rotating = 102400" "m_errorHandler rotating" "m_logBuffer rotating = []"
  by (simp_all add: rotating_def running_simps)

lemma scan_full:
  "filterPostfixes env (rev (filter (nameFilter releaseBuild) (map fst fullFile))) [] s
   = ([''app_0.log''], s)"
  by (simp add: fullFile_def releaseBuild_simps string_defs)

lemma keep_one: "removeRedundant env 10 [a] s = ([a], s)"
  by (simp add: removeRedundant.simps[of env 10 "[a]"])

lemma newFile_full:
  "rotateNewFile releaseBuild createFails [''app_0.log''] rotating
   = (False, ''app_0.log'', rotatedOut)"
  by (simp add: rotateNewFile_def rotating_def rotatedOut_def running_def initialState_def
      fullFile_def createFails_def noFailure_def releaseBuild_simps indexed_names creationError_def
      fileExists_def renameFile_def renameEntry_def logFileTouch_def
      emit_def callErrorHandler_def Let_def)

lemma rotate_full:
  "rotateLogFiles releaseBuild createFails ''app_0.log'' rotating
   = Some (False, ''app_0.log'', rotatedOut)"
proof -
  have "rotateLogFiles releaseBuild createFails ''app_0.log'' rotating
        = rotateScan releaseBuild createFails rotating"
    by (simp add: rotateLogFiles_def rotating_simps fullFile_simps(1,2) releaseBuild_simps)
  also have "\<dots> = Some (rotateNewFile releaseBuild createFails [''app_0.log''] rotating)"
    by (simp add: rotateScan_def rotating_simps fullFile_simps(1) scan_full keep_one
        releaseBuild_simps sortByPostfix_def)
  finally show ?thesis by (simp add: newFile_full)
qed


subsection \<open>Flushing writes the buffer\<close>

text \<open>
  C1: whatever lines the buffer holds, a flush that meets no failure (the directory is
  set, the main file can be created, opened and written) writes exactly those lines to
  the active file, in the order of the buffer, each once and each followed by the line
  terminator: the directory after the flush is the directory the rotation left, with
  those bytes appended to the main file. The buffer is left holding only what other
  threads added in the meantime; an empty buffer writes nothing.
\<close>

theorem flushBuffer_writes_buffer:
  assumes "m_logDir s \<noteq> []" and "0 < m_maxLogFiles s"
    and "createOk env (mainLogFileName p)" and "openOk env (mainLogFileName p)"
    and "list_all (writeOk env) (m_logBuffer s)"
  shows "\<exists>s'. flushBuffer p env force s = Some s'
     \<and> (if m_logBuffer s = [] then files s' = files s \<and> m_logBuffer s' = []
        else (\<exists>s1. rotateLogFiles p env (m_logFileName s) (swapBuffer env (restartTimer s))
                     = Some (True, mainLogFileName p, s1)
                \<and> files s' = appendEntry (mainLogFileName p) (linesBytes (m_logBuffer s)) (files s1)
                \<and> fileContent (files s') (mainLogFileName p)
                    = fileContent (files s1) (mainLogFileName p) @ linesBytes (m_logBuffer s)
                \<and> m_logFileName s' = mainLogFileName p
                \<and> m_logBuffer s' = meanwhile env))"
proof (cases "m_logBuffer s = []")
  case True
  then show ?thesis by (simp add: flushBuffer_unfold restartTimer_fields)
next
  case False
  have "0 < m_maxLogFiles (swapBuffer env (restartTimer s))"
    "m_logDir (swapBuffer env (restartTimer s)) \<noteq> []"
    using assms by (simp_all add: swapBuffer_fields restartTimer_fields)
  from rotateLogFiles_succeeds[OF this assms(3), of "m_logFileName s"] obtain s1 where
    r: "rotateLogFiles p env (m_logFileName s) (swapBuffer env (restartTimer s))
        = Some (True, mainLogFileName p, s1)" by blast
  from flushBuffer_written[OF False r assms(4) assms(5), of force] False r show ?thesis
    by (auto simp: fileContent_appendEntry)
qed


theorem flushBuffer_writes_buffer_witness:
  "m_logDir (running oneFile [''first'', ''second'']) \<noteq> []
   \<and> 0 < m_maxLogFiles (running oneFile [''first'', ''second''])
   \<and> createOk noFailure (mainLogFileName releaseBuild)
   \<and> openOk noFailure (mainLogFileName releaseBuild)
   \<and> list_all (writeOk noFailure) (m_logBuffer (running oneFile [''first'', ''second'']))
   \<and> (\<exists>s'. flushBuffer releaseBuild noFailure True
               (running oneFile [''first'', ''second'']) = Some s'
          \<and> files s' = [(''app_0.log'', ''old'' @ eol @ ''first'' @ eol @ ''second'' @ eol)]
          \<and> m_logBuffer s' = [])"
proof -
  define s where "s = running oneFile [''first'', ''second'']"
  have h: "m_logDir s \<noteq> []" "0 < m_maxLogFiles s" "createOk noFailure (mainLogFileName releaseBuild)"
    "openOk noFailure (mainLogFileName releaseBuild)" "list_all (writeOk noFailure) (m_logBuffer s)"
    by (simp_all add: s_def running_def initialState_def noFailure_def)
  have b: "m_logBuffer s = [''first'', ''second'']" "m_logFileName s = ''app_0.log''"
    by (simp_all add: s_def running_def)
  from flushBuffer_writes_buffer[OF h, of True] obtain s' s1 where
    f: "flushBuffer releaseBuild noFailure True s = Some s'"
       "rotateLogFiles releaseBuild noFailure (m_logFileName s) (swapBuffer noFailure (restartTimer s))
        = Some (True, mainLogFileName releaseBuild, s1)"
       "files s' = appendEntry (mainLogFileName releaseBuild) (linesBytes (m_logBuffer s)) (files s1)"
       "m_logBuffer s' = meanwhile noFailure"
    using b by auto
  from f(2) have "s1 = (running oneFile [])\<lparr>m_logRotationTime := 1\<rparr>"
    using b(2) by (simp add: s_def rotate_fast releaseBuild_simps)
  then have "files s1 = oneFile"
    by (simp add: running_def initialState_def)
  with f(3) have "files s' = [(''app_0.log'', ''old'' @ eol @ ''first'' @ eol @ ''second'' @ eol)]"
    by (simp add: b releaseBuild_simps appendEntry_def fileExists_def linesBytes_def oneFile_def)
  with f(1) f(4) h show ?thesis unfolding s_def by (simp add: noFailure_def)
qed




subsection \<open>Fatal records\<close>

text \<open>
  C5, with the conditions the code attaches: a fatal record for which the clean-category
  restriction does not apply (no clean category is set, or the record's category is
  another one, or clean messages may go to the file) is enqueued and
  \<open>flushBuffer(true)\<close> has returned before the observer is called and before
  the \<open>qFatal\<close> call, whatever the minimum levels are. When nothing hinders
  the flush, the line is in the main file, and the forced flush of the file is among the
  events, ahead of the \<open>qFatal\<close> call, which comes last.
\<close>

theorem fatal_record_flushed_first:
  assumes "mayWrite m s"
  shows "messageHandler p env QtFatalMsg m s
           = map_option (\<lambda>s'. fatalOutput m (sendLog QtFatalMsg m s'))
               (flushBuffer p env True (enqueue (formattedMessage QtFatalMsg m) s))
         \<and> (unhindered p env s (m_logBuffer s @ [formattedMessage QtFatalMsg m]) \<longrightarrow>
            (\<exists>s1 s2 s'.
               rotateLogFiles p env (m_logFileName s)
                 (swapBuffer env (restartTimer (enqueue (formattedMessage QtFatalMsg m) s)))
                 = Some (True, mainLogFileName p, s1)
               \<and> flushBuffer p env True (enqueue (formattedMessage QtFatalMsg m) s) = Some s2
               \<and> files s2 = appendEntry (mainLogFileName p)
                               (linesBytes (m_logBuffer s @ [formattedMessage QtFatalMsg m])) (files s1)
               \<and> events s2 = events s1
                    @ writeEvents (mainLogFileName p) True (m_logBuffer s @ [formattedMessage QtFatalMsg m])
                    @ flushDiagnostics p env s
               \<and> messageHandler p env QtFatalMsg m s = Some s'
               \<and> files s' = files s2
               \<and> events s' = events s2
                    @ [SendLog QtFatalMsg (category m) (msg m),
                       Console QtFatalMsg
                         (if m_cleanLogCategory s = []
                          then colour QtFatalMsg (formattedMessage QtFatalMsg m)
                          else ''[FTL] '' @ msg m)]))"
proof (intro conjI impI)
  show e: "messageHandler p env QtFatalMsg m s
           = map_option (\<lambda>s'. fatalOutput m (sendLog QtFatalMsg m s'))
               (flushBuffer p env True (enqueue (formattedMessage QtFatalMsg m) s))"
    using assms by (simp add: messageHandler_fatal)
  assume u: "unhindered p env s (m_logBuffer s @ [formattedMessage QtFatalMsg m])"
  from enqueue_flush[OF u, of True] obtain s1 s2 where
    f: "rotateLogFiles p env (m_logFileName s)
          (swapBuffer env (restartTimer (enqueue (formattedMessage QtFatalMsg m) s)))
        = Some (True, mainLogFileName p, s1)"
       "flushBuffer p env True (enqueue (formattedMessage QtFatalMsg m) s) = Some s2"
       "files s2 = appendEntry (mainLogFileName p)
                     (linesBytes (m_logBuffer s @ [formattedMessage QtFatalMsg m])) (files s1)"
       "events s2 = events s1
          @ writeEvents (mainLogFileName p) True (m_logBuffer s @ [formattedMessage QtFatalMsg m])
          @ flushDiagnostics p env s"
    by blast
  have c: "m_cleanLogCategory s2 = m_cleanLogCategory s"
    using flushBuffer_settings[OF f(2)] by (simp add: enqueue_def)
  define s' where "s' = fatalOutput m (sendLog QtFatalMsg m s2)"
  have "messageHandler p env QtFatalMsg m s = Some s'" using e f(2) by (simp add: s'_def)
  moreover have "files s' = files s2" by (simp add: s'_def fatalOutput_fields sendLog_fields)
  moreover have "events s' = events s2
                    @ [SendLog QtFatalMsg (category m) (msg m),
                       Console QtFatalMsg
                         (if m_cleanLogCategory s = []
                          then colour QtFatalMsg (formattedMessage QtFatalMsg m)
                          else ''[FTL] '' @ msg m)]"
    using c by (simp add: s'_def fatalOutput_fields sendLog_fields messageOf_def sendLog_def emit_def)
  ultimately show "\<exists>s1 s2 s'.
               rotateLogFiles p env (m_logFileName s)
                 (swapBuffer env (restartTimer (enqueue (formattedMessage QtFatalMsg m) s)))
                 = Some (True, mainLogFileName p, s1)
               \<and> flushBuffer p env True (enqueue (formattedMessage QtFatalMsg m) s) = Some s2
               \<and> files s2 = appendEntry (mainLogFileName p)
                               (linesBytes (m_logBuffer s @ [formattedMessage QtFatalMsg m])) (files s1)
               \<and> events s2 = events s1
                    @ writeEvents (mainLogFileName p) True (m_logBuffer s @ [formattedMessage QtFatalMsg m])
                    @ flushDiagnostics p env s
               \<and> messageHandler p env QtFatalMsg m s = Some s'
               \<and> files s' = files s2
               \<and> events s' = events s2
                    @ [SendLog QtFatalMsg (category m) (msg m),
                       Console QtFatalMsg
                         (if m_cleanLogCategory s = []
                          then colour QtFatalMsg (formattedMessage QtFatalMsg m)
                          else ''[FTL] '' @ msg m)]"
    using f by blast
qed

theorem fatal_record_flushed_first_witness:
  "mayWrite linkDown (running oneFile [''earlier''])
   \<and> unhindered releaseBuild noFailure (running oneFile [''earlier''])
        (m_logBuffer (running oneFile [''earlier'']) @ [formattedMessage QtFatalMsg linkDown])
   \<and> (\<exists>s'. messageHandler releaseBuild noFailure QtFatalMsg linkDown (running oneFile [''earlier''])
              = Some s'
          \<and> files s' = [(''app_0.log'',
                ''old'' @ eol @ ''earlier'' @ eol @ ''[12:00:00] [FTL] [net] link down'' @ eol)]
          \<and> events s' =
               [FileOpen ''app_0.log'' True,
                FileWrite ''app_0.log'' (''earlier'' @ eol) True,
                FileWrite ''app_0.log'' (''[12:00:00] [FTL] [net] link down'' @ eol) True,
                FileFlush ''app_0.log'',
                FileClose ''app_0.log'',
                SendLog QtFatalMsg ''net'' ''link down'',
                Console QtFatalMsg (colour QtFatalMsg ''[12:00:00] [FTL] [net] link down'')])"
proof -
  define s where "s = running oneFile [''earlier'']"
  have h: "mayWrite linkDown s" by (simp add: mayWrite_def s_def running_simps)
  have u: "unhindered releaseBuild noFailure s (m_logBuffer s @ [formattedMessage QtFatalMsg linkDown])"
    by (simp add: unhindered_def s_def running_simps noFailure_simps)
  from fatal_record_flushed_first[OF h, of releaseBuild noFailure, THEN conjunct2, THEN mp, OF u]
  obtain s1 and s2 :: QCustomLog and s' where
    f: "rotateLogFiles releaseBuild noFailure (m_logFileName s)
          (swapBuffer noFailure (restartTimer (enqueue (formattedMessage QtFatalMsg linkDown) s)))
        = Some (True, mainLogFileName releaseBuild, s1)"
       "files s2 = appendEntry (mainLogFileName releaseBuild)
                     (linesBytes (m_logBuffer s @ [formattedMessage QtFatalMsg linkDown])) (files s1)"
       "events s2 = events s1
          @ writeEvents (mainLogFileName releaseBuild) True
              (m_logBuffer s @ [formattedMessage QtFatalMsg linkDown])
          @ flushDiagnostics releaseBuild noFailure s"
       "messageHandler releaseBuild noFailure QtFatalMsg linkDown s = Some s'"
       "files s' = files s2"
       "events s' = events s2
          @ [SendLog QtFatalMsg (category linkDown) (msg linkDown),
             Console QtFatalMsg
               (if m_cleanLogCategory s = []
                then colour QtFatalMsg (formattedMessage QtFatalMsg linkDown)
                else ''[FTL] '' @ msg linkDown)]"
    by blast
  have q: "swapBuffer noFailure (restartTimer (enqueue (formattedMessage QtFatalMsg linkDown) s))
           = running oneFile []"
    by (simp add: s_def enqueue_def swapBuffer_def restartTimer_def running_def initialState_def
        noFailure_simps Let_def)
  from f(1) have "s1 = (running oneFile [])\<lparr>m_logRotationTime := rotationTimeEMA 0 (rotateElapsed noFailure)\<rparr>"
    by (simp add: q[unfolded s_def] s_def running_simps rotate_running_oneFile releaseBuild_simps)
  then have s1: "files s1 = oneFile" "events s1 = []" by (simp_all add: running_simps)
  have "files s' = [(''app_0.log'',
                ''old'' @ eol @ ''earlier'' @ eol @ ''[12:00:00] [FTL] [net] link down'' @ eol)]"
    using f(2,5) s1
    by (simp add: s_def running_simps linkDown_simps releaseBuild_simps appendEntry_def
        fileExists_def linesBytes_def oneFile_def)
  moreover have "events s' =
               [FileOpen ''app_0.log'' True,
                FileWrite ''app_0.log'' (''earlier'' @ eol) True,
                FileWrite ''app_0.log'' (''[12:00:00] [FTL] [net] link down'' @ eol) True,
                FileFlush ''app_0.log'',
                FileClose ''app_0.log'',
                SendLog QtFatalMsg ''net'' ''link down'',
                Console QtFatalMsg (colour QtFatalMsg ''[12:00:00] [FTL] [net] link down'')]"
    using f(3,6) s1
    by (simp add: s_def running_simps linkDown_simps releaseBuild_simps writeEvents_def
        flushDiagnostics_def)
  ultimately show ?thesis using h u f(4) unfolding s_def by simp
qed


text \<open>
  Without the condition on the clean category the property fails: with the clean category \<open>CI\<close> kept out of the file,
  a fatal record of that category is neither enqueued nor flushed; the \<open>qFatal\<close> call is
  the only event.
\<close>

theorem fatal_record_withheld:
  "map_option (\<lambda>s'. (events s', files s', m_logBuffer s'))
     (messageHandler releaseBuild noFailure QtFatalMsg secret cleanOutput)
   = Some ([Console QtFatalMsg ''[FTL] token=abc''], oneFile, [])"
  by (simp add: messageHandler_fatal mayWrite_def fatalOutput_def emit_def cleanOutput_def
      setCleanLogCategory_def secret_def running_simps)

subsection \<open>Records without buffering\<close>






subsection \<open>Failure to create the main file\<close>

text \<open>
  C8, with the conditions the code attaches: when the main file is missing or has
  reached the size limit, so that the pass has to create a new one, and the creation
  fails, \<open>rotateLogFiles\<close> returns failure, on the exit after the renaming as on the exit
  for a directory without log files. The failure is reported to the error handler when
  one is installed, and the out-parameter \<open>logFileName\<close> holds the name of the main file,
  not the empty string. The buffer is not touched, and the next call scans the directory
  again whenever the main file does not exist. The directory is set, \<open>m_maxLogFiles\<close> is
  not zero, and no two files of the directory have the same name.
\<close>

theorem rotateLogFiles_creation_failure:
  assumes "m_logDir s \<noteq> []" and "0 < m_maxLogFiles s" and "distinct (map fst (files s))"
    and "\<not> fileExists (files s) (mainLogFileName p)
         \<or> m_maxLogFileSize s \<le> fileSize (files s) (mainLogFileName p)"
    and "\<not> createOk env (mainLogFileName p)"
  shows "\<exists>s'. rotateLogFiles p env logFileName s = Some (False, mainLogFileName p, s')
           \<and> mainLogFileName p \<noteq> []
           \<and> touchFailed p s s'
           \<and> FileCreate (mainLogFileName p) False \<in> set (events s')
           \<and> last (events s') = (if m_errorHandler s then ErrorReport (creationError p)
                                  else FileCreate (mainLogFileName p) False)
           \<and> m_logBuffer s' = m_logBuffer s
           \<and> (\<not> fileExists (files s') (mainLogFileName p) \<longrightarrow>
                (\<forall>env2. rotateLogFiles p env2 (mainLogFileName p) s' = rotateScan p env2 s'))"
proof -
  from rotateScan_creates[OF assms(3) assms(2) assms(4) assms(5)] obtain s' where
    r: "rotateScan p env s = Some (False, mainLogFileName p, s')" and t: "touchFailed p s s'"
    by blast
  have "rotateLogFiles p env logFileName s = rotateScan p env s"
    using assms(1) assms(4) by (auto simp: rotateLogFiles_def Let_def)
  with r have q: "rotateLogFiles p env logFileName s = Some (False, mainLogFileName p, s')"
    by simp
  have ne: "mainLogFileName p \<noteq> []" by (simp add: mainLogFileName_def)
  from rotateLogFiles_ioStep[OF q] assms(1) have d: "m_logDir s' \<noteq> []"
    by (simp add: ioStep_fields)
  show ?thesis
    using q t ne touchFailed_events[OF t] rotateLogFiles_rescan[OF d]
    by auto
qed

theorem rotateLogFiles_creation_failure_witness:
  "m_logDir rotating \<noteq> [] \<and> 0 < m_maxLogFiles rotating \<and> distinct (map fst (files rotating))
   \<and> m_maxLogFileSize rotating \<le> fileSize (files rotating) (mainLogFileName releaseBuild)
   \<and> \<not> createOk createFails (mainLogFileName releaseBuild)
   \<and> rotateLogFiles releaseBuild createFails ''app_0.log'' rotating
       = Some (False, ''app_0.log'', rotatedOut)
   \<and> files rotatedOut = [(''app_1.log'', replicate 102400 (CHR ''x''))]
   \<and> FileCreate ''app_0.log'' False \<in> set (events rotatedOut)
   \<and> last (events rotatedOut) = ErrorReport (creationError releaseBuild)
   \<and> m_logBuffer rotatedOut = m_logBuffer rotating
   \<and> (\<forall>env2. rotateLogFiles releaseBuild env2 ''app_0.log'' rotatedOut
                = rotateScan releaseBuild env2 rotatedOut)
   \<and> \<not> fileExists (files (running [] [])) (mainLogFileName releaseBuild)
   \<and> rotateLogFiles releaseBuild createFails [] (running [] [])
       = Some (False, ''app_0.log'', createFailed)
   \<and> last (events createFailed) = ErrorReport (creationError releaseBuild)"
proof -
  have g: "m_logDir (running [] []) \<noteq> []" "0 < m_maxLogFiles (running [] [])"
    "distinct (map fst (files (running [] [])))"
    "\<not> fileExists (files (running [] [])) (mainLogFileName releaseBuild)
     \<or> m_maxLogFileSize (running [] [])
        \<le> fileSize (files (running [] [])) (mainLogFileName releaseBuild)"
    "\<not> createOk createFails (mainLogFileName releaseBuild)"
    by (simp_all add: running_simps fileExists_def createFails_simps)
  from rotateLogFiles_creation_failure[OF g, of "[]"] obtain s'' where
    r2: "rotateLogFiles releaseBuild createFails [] (running [] [])
         = Some (False, mainLogFileName releaseBuild, s'')"
    and p2: "last (events s'') = (if m_errorHandler (running [] [])
                                  then ErrorReport (creationError releaseBuild)
                                  else FileCreate (mainLogFileName releaseBuild) False)"
    by blast
  have "rotateLogFiles releaseBuild createFails [] (running [] [])
        = Some (False, ''app_0.log'', createFailed)"
    by (simp add: rotateLogFiles_def rotateScan_def logFileTouch_def callErrorHandler_def emit_def
        running_def initialState_def releaseBuild_simps createFails_simps fileExists_def Let_def
        createFailed_def creationError_def)
  with r2 have s'': "s'' = createFailed" by simp
  from p2 r2 have k: "rotateLogFiles releaseBuild createFails [] (running [] [])
       = Some (False, ''app_0.log'', createFailed)"
    "last (events createFailed) = ErrorReport (creationError releaseBuild)"
    "\<not> fileExists (files (running [] [])) (mainLogFileName releaseBuild)"
    unfolding s'' by (simp_all add: releaseBuild_simps running_simps fileExists_def)
  have h: "m_logDir rotating \<noteq> []" "0 < m_maxLogFiles rotating"
    "distinct (map fst (files rotating))"
    "\<not> fileExists (files rotating) (mainLogFileName releaseBuild)
     \<or> m_maxLogFileSize rotating \<le> fileSize (files rotating) (mainLogFileName releaseBuild)"
    "\<not> createOk createFails (mainLogFileName releaseBuild)"
    by (simp_all add: rotating_simps fullFile_simps releaseBuild_simps createFails_simps)
  have e: "\<not> fileExists (files rotatedOut) (mainLogFileName releaseBuild)"
    "files rotatedOut = [(''app_1.log'', replicate 102400 (CHR ''x''))]"
    by (simp_all add: rotatedOut_def fileExists_def releaseBuild_simps)
  from rotateLogFiles_creation_failure[OF h, of "''app_0.log''"] obtain s' where
    r: "rotateLogFiles releaseBuild createFails ''app_0.log'' rotating
        = Some (False, mainLogFileName releaseBuild, s')"
    and p: "FileCreate (mainLogFileName releaseBuild) False \<in> set (events s')"
      "last (events s') = (if m_errorHandler rotating then ErrorReport (creationError releaseBuild)
                           else FileCreate (mainLogFileName releaseBuild) False)"
      "m_logBuffer s' = m_logBuffer rotating"
      "\<not> fileExists (files s') (mainLogFileName releaseBuild) \<longrightarrow>
         (\<forall>env2. rotateLogFiles releaseBuild env2 (mainLogFileName releaseBuild) s'
                  = rotateScan releaseBuild env2 s')"
    by blast
  from r have s': "s' = rotatedOut" by (simp add: rotate_full)
  from p e h r k show ?thesis unfolding s'
    by (simp add: releaseBuild_simps rotating_simps fullFile_simps)
qed


text \<open>
  The out-parameter is not cleared: after the failed creation it is the name of the main
  file, not the empty string, over an empty directory as after the renaming of a full
  main file.
\<close>

theorem creation_failure_names_main_file:
  "map_option (\<lambda>r. (fst r, fst (snd r)))
     (rotateLogFiles releaseBuild createFails [] (running [] []))
   = Some (False, ''app_0.log'')
   \<and> map_option (\<lambda>r. (fst r, fst (snd r)))
       (rotateLogFiles releaseBuild createFails ''app_0.log'' rotating)
     = Some (False, ''app_0.log'')"
proof -
  have "map_option (\<lambda>r. (fst r, fst (snd r)))
          (rotateLogFiles releaseBuild createFails [] (running [] []))
        = Some (False, ''app_0.log'')"
    by (simp add: rotateLogFiles_def rotateScan_def logFileTouch_def callErrorHandler_def emit_def
        running_def initialState_def releaseBuild_simps createFails_simps Let_def)
  then show ?thesis by (simp add: rotate_full)
qed

subsection \<open>The average flush time\<close>

text \<open>
  C9, with the conditions the code attaches: starting from the initial average 0, after
  a first flush whose measured duration is the \<open>float\<close> \<open>a\<close> the average is \<open>a\<close>. After a
  second flush of duration \<open>b\<close> it is, when \<open>a\<close> is positive, the single-precision value of
  \<open>a * 0.9f + b * 0.1f\<close>, each product and the sum rounded to \<open>float\<close>; for \<open>b\<close> not
  negative this value lies within one part in \<open>2 ^ 22\<close> (and \<open>1 / 2 ^ 147\<close>) of
  \<open>a * (1 - 0.1) + b * 0.1\<close>, without being equal to it in general. When \<open>a\<close> is not
  positive the average is \<open>b\<close>: an average that is not positive counts as not yet seeded.
\<close>

theorem flush_time_average:
  assumes "m_logBufferFlushTime s = 0" and "m_logBuffer s \<noteq> []" and "later \<noteq> []"
    and "unhindered p env1 s (m_logBuffer s)" and "unhindered p env2 s (meanwhile env1 @ later)"
  shows "\<exists>s1 s2. flushBuffer p env1 force1 s = Some s1
           \<and> m_logBufferFlushTime s1 = flushElapsed env1
           \<and> flushBuffer p env2 force2 (enqueueAll later s1) = Some s2
           \<and> m_logBufferFlushTime s2 =
               (if 0 < flushElapsed env1
                then toFloat (toFloat (flushElapsed env1 * toFloat (9 / 10))
                              + toFloat (flushElapsed env2 * toFloat (1 / 10)))
                else flushElapsed env2)
           \<and> (0 < flushElapsed env1 \<and> 0 \<le> flushElapsed env2 \<longrightarrow>
                \<bar>m_logBufferFlushTime s2
                   - (flushElapsed env1 * (1 - 0.1) + flushElapsed env2 * 0.1)\<bar>
                \<le> (flushElapsed env1 * (1 - 0.1) + flushElapsed env2 * 0.1) / 2 ^ 22
                    + 1 / 2 ^ 147)"
proof -
  from assms(4) have u1: "m_logDir s \<noteq> []" "0 < m_maxLogFiles s"
    "createOk env1 (mainLogFileName p)" "openOk env1 (mainLogFileName p)"
    "list_all (writeOk env1) (m_logBuffer s)"
    by (simp_all add: unhindered_def)
  from assms(5) have u2: "createOk env2 (mainLogFileName p)" "openOk env2 (mainLogFileName p)"
    "list_all (writeOk env2) (meanwhile env1 @ later)"
    by (simp_all add: unhindered_def)
  have "0 < m_maxLogFiles (swapBuffer env1 (restartTimer s))"
    "m_logDir (swapBuffer env1 (restartTimer s)) \<noteq> []"
    using u1 by (simp_all add: swapBuffer_fields restartTimer_fields)
  from rotateLogFiles_succeeds[OF this u1(3), of "m_logFileName s"] obtain r1 where
    r1: "rotateLogFiles p env1 (m_logFileName s) (swapBuffer env1 (restartTimer s))
         = Some (True, mainLogFileName p, r1)" by blast
  from flushBuffer_written[OF assms(2) r1 u1(4) u1(5), of force1] obtain s1 where
    f1: "flushBuffer p env1 force1 s = Some s1" "m_logBuffer s1 = meanwhile env1"
        "m_logBufferFlushTime s1 = flushTimeEMA (m_logBufferFlushTime s) (flushElapsed env1)"
    by blast
  from flushBuffer_settings[OF f1(1)] have k: "m_logDir s1 = m_logDir s" "m_maxLogFiles s1 = m_maxLogFiles s"
    by simp_all
  define t where "t = enqueueAll later s1"
  have b: "m_logBuffer t = meanwhile env1 @ later" by (simp add: t_def enqueueAll_fields f1)
  then have ne: "m_logBuffer t \<noteq> []" using assms(3) by simp
  have a: "m_logBufferFlushTime t = m_logBufferFlushTime s1"
    unfolding t_def enqueueAll_def by (induction later arbitrary: s1) (simp_all add: enqueue_def)
  have "0 < m_maxLogFiles (swapBuffer env2 (restartTimer t))"
    "m_logDir (swapBuffer env2 (restartTimer t)) \<noteq> []"
    using u1 k by (simp_all add: t_def swapBuffer_fields restartTimer_fields enqueueAll_fields)
  from rotateLogFiles_succeeds[OF this u2(1), of "m_logFileName t"] obtain r2 where
    r2: "rotateLogFiles p env2 (m_logFileName t) (swapBuffer env2 (restartTimer t))
         = Some (True, mainLogFileName p, r2)" by blast
  from u2(3) b have w: "list_all (writeOk env2) (m_logBuffer t)" by simp
  from flushBuffer_written[OF ne r2 u2(2) w, of force2] obtain s2 where
    f2: "flushBuffer p env2 force2 t = Some s2"
        "m_logBufferFlushTime s2 = flushTimeEMA (m_logBufferFlushTime t) (flushElapsed env2)"
    by blast
  have g1: "m_logBufferFlushTime s1 = flushElapsed env1"
    using f1(3) assms(1) by (simp add: flushTimeEMA_def)
  then have g2: "m_logBufferFlushTime s2 = flushTimeEMA (flushElapsed env1) (flushElapsed env2)"
    using f2(2) a by simp
  have g3: "m_logBufferFlushTime s2 =
               (if 0 < flushElapsed env1
                then toFloat (toFloat (flushElapsed env1 * toFloat (9 / 10))
                              + toFloat (flushElapsed env2 * toFloat (1 / 10)))
                else flushElapsed env2)"
    unfolding g2 flushTimeEMA_def by (simp add: not_le)
  have g4: "0 < flushElapsed env1 \<and> 0 \<le> flushElapsed env2 \<longrightarrow>
                \<bar>m_logBufferFlushTime s2
                   - (flushElapsed env1 * (1 - 0.1) + flushElapsed env2 * 0.1)\<bar>
                \<le> (flushElapsed env1 * (1 - 0.1) + flushElapsed env2 * 0.1) / 2 ^ 22
                    + 1 / 2 ^ 147"
    unfolding g2 using flushTimeEMA_error by blast
  from f1(1) g1 f2(1) g3 g4 show ?thesis unfolding t_def by blast
qed

theorem flush_time_average_witness:
  "m_logBufferFlushTime (running oneFile [''first'']) = 0
   \<and> m_logBuffer (running oneFile [''first'']) \<noteq> [] \<and> [''second''] \<noteq> []
   \<and> unhindered releaseBuild (took 2000000000) (running oneFile [''first''])
        (m_logBuffer (running oneFile [''first'']))
   \<and> unhindered releaseBuild (took 4000000000) (running oneFile [''first''])
        (meanwhile (took 2000000000) @ [''second''])
   \<and> (\<exists>s1 s2. flushBuffer releaseBuild (took 2000000000) False (running oneFile [''first''])
                 = Some s1
          \<and> m_logBufferFlushTime s1 = 2
          \<and> flushBuffer releaseBuild (took 4000000000) False (enqueueAll [''second''] s1)
              = Some s2
          \<and> m_logBufferFlushTime s2 = 9227469 / 4194304
          \<and> \<bar>m_logBufferFlushTime s2 - (2 * (1 - 0.1) + 4 * 0.1)\<bar>
              \<le> (2 * (1 - 0.1) + 4 * 0.1) / 2 ^ 22 + 1 / 2 ^ 147)"
proof -
  have t: "createOk (took x) n" "openOk (took x) n"
    "writeOk (took x) l" "meanwhile (took x) = []" for x n l
    by (simp_all add: took_def noFailure_def)
  have e: "flushElapsed (took 2000000000) = 2" "flushElapsed (took 4000000000) = 4"
    by (simp_all add: took_def flushElapsed_def elapsedSeconds_values)
  have v: "toFloat (toFloat (2 * toFloat (9 / 10)) + toFloat (4 * toFloat (1 / 10)))
           = 9227469 / 4194304"
    using two_then_four by (simp add: flushTimeEMA_def)
  have h: "m_logBufferFlushTime (running oneFile [''first'']) = 0"
    "m_logBuffer (running oneFile [''first'']) \<noteq> []" "[''second''] \<noteq> []"
    "unhindered releaseBuild (took 2000000000) (running oneFile [''first''])
        (m_logBuffer (running oneFile [''first'']))"
    "unhindered releaseBuild (took 4000000000) (running oneFile [''first''])
        (meanwhile (took 2000000000) @ [''second''])"
    by (simp_all add: running_simps unhindered_def t)
  from flush_time_average[OF h, of False False] obtain s1 s2 where
    r: "flushBuffer releaseBuild (took 2000000000) False (running oneFile [''first'']) = Some s1"
       "m_logBufferFlushTime s1 = 2"
       "flushBuffer releaseBuild (took 4000000000) False (enqueueAll [''second''] s1) = Some s2"
       "m_logBufferFlushTime s2 = 9227469 / 4194304"
       "\<bar>m_logBufferFlushTime s2 - (2 * (1 - 0.1) + 4 * 0.1)\<bar>
          \<le> (2 * (1 - 0.1) + 4 * 0.1) / 2 ^ 22 + 1 / 2 ^ 147"
    unfolding e v by auto
  with h show ?thesis by blast
qed


text \<open>
  A first sample of zero does not seed the average: the second sample then seeds the
  average again. And the blended value is the rounded one: 2 s then 4 s give
  \<open>9227469 / 4194304\<close>, the \<open>float\<close> next to \<open>2.2\<close>.
\<close>

theorem flushTimeEMA_zero_sample:
  "flushTimeEMA (flushTimeEMA 0 (elapsedSeconds 0)) (elapsedSeconds 1000000000) = 1
   \<and> flushTimeEMA (flushTimeEMA 0 (elapsedSeconds 0)) (elapsedSeconds 1000000000)
       \<noteq> 0 * (1 - 0.1) + 1 * 0.1
   \<and> flushTimeEMA (flushTimeEMA 0 (elapsedSeconds 2000000000)) (elapsedSeconds 4000000000)
       = 9227469 / 4194304
   \<and> flushTimeEMA (flushTimeEMA 0 (elapsedSeconds 2000000000)) (elapsedSeconds 4000000000)
       \<noteq> 2 * (1 - 0.1) + 4 * 0.1"
proof -
  have z: "flushTimeEMA 0 x = x" for x by (simp add: flushTimeEMA_def)
  show ?thesis unfolding elapsedSeconds_values z two_then_four by simp
qed

subsection \<open>The observer\<close>

text \<open>
  C10, with the conditions the code attaches: for every non-fatal record that the
  handler does not drop on entry (a debug record in a build with \<open>NDEBUG\<close>
  is dropped), while the clean-category restriction does not apply, the observer
  \<open>sendLog\<close> is called exactly once, as the last thing the handler does,
  also when the level is below the minimum file level; below that level nothing is
  enqueued and no file is touched.
\<close>

theorem observer_called_once:
  assumes "t \<noteq> QtFatalMsg" and "\<not> (NDEBUG p \<and> t = QtDebugMsg)"
    and "mayWrite m s" and "0 < m_maxLogFiles s"
  shows "\<exists>s'. messageHandler p env t m s = Some s'
           \<and> sendLogCalls s' = Suc (sendLogCalls s)
           \<and> last (events s') = SendLog t (category m) (messageOf t m)
           \<and> (\<not> levelGreaterOrEqual t (m_minOutFileLevel s) \<longrightarrow>
                m_logBuffer s' = m_logBuffer s \<and> files s' = files s)"
proof -
  define c where "c = consoleOutput t m s"
  define q where "q = enqueue (formattedMessage t m) c"
  have m: "0 < m_maxLogFiles q" using assms(4) by (simp add: q_def c_def enqueue_fields consoleOutput_fields)
  obtain s2 where f: "flushBuffer p env (t = QtCriticalMsg) q = Some s2"
    using flushBuffer_defined[OF m] by blast
  have cq: "sendLogCalls c = sendLogCalls s" "sendLogCalls q = sendLogCalls s"
    by (simp_all add: q_def c_def enqueue_fields consoleOutput_fields)
  have e: "messageHandler p env t m s =
        map_option (sendLog t m)
          (if levelGreaterOrEqual t (m_minOutFileLevel s) then
             (if t = QtCriticalMsg \<or> \<not> m_logBufferEnabled s
              then flushBuffer p env (t = QtCriticalMsg) q
              else Some q)
           else Some c)"
    using assms by (simp add: messageHandler_nonfatal q_def c_def)
  show ?thesis
  proof (cases "levelGreaterOrEqual t (m_minOutFileLevel s)")
    case False
    with e have "messageHandler p env t m s = Some (sendLog t m c)" by simp
    then show ?thesis using False cq
      by (simp add: sendLog_fields c_def consoleOutput_fields)
  next
    case True
    show ?thesis
    proof (cases "t = QtCriticalMsg \<or> \<not> m_logBufferEnabled s")
      case yes: True
      with e True f have "messageHandler p env t m s = Some (sendLog t m s2)" by simp
      then show ?thesis using True cq flushBuffer_sendLogCalls[OF f]
        by (simp add: sendLog_fields)
    next
      case no: False
      with e True have "messageHandler p env t m s = Some (sendLog t m q)" by simp
      then show ?thesis using True cq by (simp add: sendLog_fields)
    qed
  qed
qed

theorem observer_called_once_witness:
  "QtInfoMsg \<noteq> QtFatalMsg \<and> \<not> (NDEBUG releaseBuild \<and> QtInfoMsg = QtDebugMsg)
   \<and> mayWrite linkDown warningsOnly \<and> 0 < m_maxLogFiles warningsOnly
   \<and> \<not> levelGreaterOrEqual QtInfoMsg (m_minOutFileLevel warningsOnly)
   \<and> sendLogCalls warningsOnly = 0
   \<and> (\<exists>s'. messageHandler releaseBuild noFailure QtInfoMsg linkDown warningsOnly = Some s'
          \<and> sendLogCalls s' = 1
          \<and> last (events s') = SendLog QtInfoMsg ''net'' ''link down''
          \<and> m_logBuffer s' = [] \<and> files s' = oneFile)"
proof -
  have h: "QtInfoMsg \<noteq> QtFatalMsg" "\<not> (NDEBUG releaseBuild \<and> QtInfoMsg = QtDebugMsg)"
    "mayWrite linkDown warningsOnly" "0 < m_maxLogFiles warningsOnly"
    by (simp_all add: mayWrite_def warningsOnly_def setMinLevels_def running_simps)
  have l: "\<not> levelGreaterOrEqual QtInfoMsg (m_minOutFileLevel warningsOnly)"
    by (simp add: warningsOnly_def setMinLevels_def)
  have z: "sendLogCalls warningsOnly = 0" "m_logBuffer warningsOnly = []" "files warningsOnly = oneFile"
    by (simp_all add: warningsOnly_def setMinLevels_def sendLogCalls_def running_simps)
  from observer_called_once[OF h, of noFailure] obtain s' where
    "messageHandler releaseBuild noFailure QtInfoMsg linkDown warningsOnly = Some s'"
    "sendLogCalls s' = Suc (sendLogCalls warningsOnly)"
    "last (events s') = SendLog QtInfoMsg (category linkDown) (messageOf QtInfoMsg linkDown)"
    "\<not> levelGreaterOrEqual QtInfoMsg (m_minOutFileLevel warningsOnly) \<longrightarrow>
       m_logBuffer s' = m_logBuffer warningsOnly \<and> files s' = files warningsOnly"
    by blast
  with h l z show ?thesis by (simp add: linkDown_simps del: levelGreaterOrEqual.simps)
qed


text \<open>
  In a release build a debug record is dropped on
  entry and the observer is not called.
\<close>

theorem release_debug_record_unobserved:
  "QtDebugMsg \<noteq> QtFatalMsg \<and> mayWrite debugRecord (running oneFile [])
   \<and> map_option (\<lambda>s'. (sendLogCalls s', events s'))
        (messageHandler releaseBuild noFailure QtDebugMsg debugRecord (running oneFile []))
      = Some (0, [])"
  by (simp add: messageHandler_def releaseBuild_simps mayWrite_def running_simps sendLogCalls_def)


subsection \<open>Rotation on directories the program did not leave\<close>

text \<open>
  C6: the check for obstacles looks only for the name that the last file of the list
  is to get. Over the files \<open>app_2.log\<close>, \<open>app_5.log\<close>, \<open>app_6.log\<close> the name
  \<open>app_3.log\<close> is free, so no temporary rename takes place; the linear rename then
  asks for \<open>app_5.log\<close> to become \<open>app_2.log\<close> while \<open>app_2.log\<close> is still there, the
  rename fails and is reported, and \<open>app_5.log\<close> keeps its name.
\<close>

theorem undetected_rename_collision:
  "map_option (\<lambda>r. (fst r, events (snd (snd r)), map fst (files (snd (snd r)))))
     (rotateLogFiles releaseBuild noFailure ''app_0.log'' (running gapsDirectory []))
   = Some (True,
       [FileRename ''app_6.log'' ''app_3.log'' True,
        FileRename ''app_5.log'' ''app_2.log'' False,
        ErrorReport (''Log file '' @ dq @ ''app_5.log'' @ dq @ '' renaming error''),
        FileRename ''app_2.log'' ''app_1.log'' True,
        FileCreate ''app_0.log'' True],
       [''app_1.log'', ''app_5.log'', ''app_3.log'', ''app_0.log''])"
proof -
  have "\<not> fileExists (files (running gapsDirectory [])) ''app_0.log''"
    by (simp add: running_simps gapsDirectory_def fileExists_def)
  then have "rotateLogFiles releaseBuild noFailure ''app_0.log'' (running gapsDirectory [])
        = rotateScan releaseBuild noFailure (running gapsDirectory [])"
    by (simp add: rotateLogFiles_def running_simps releaseBuild_simps Let_def)
  also have "\<dots> = Some (rotateNewFile releaseBuild noFailure
                          [''app_2.log'', ''app_5.log'', ''app_6.log''] (running gapsDirectory []))"
    by (simp add: rotateScan_def scan_gaps running_simps sort_gaps keep_three releaseBuild_simps)
  finally show ?thesis by (simp add: newFile_gaps running_simps)
qed


text \<open>
  In particular the refused rename is among the events of the pass, and no file was
  given a temporary name.
\<close>

theorem undetected_rename_collision_witness:
  "\<exists>r. rotateLogFiles releaseBuild noFailure ''app_0.log'' (running gapsDirectory []) = Some r
        \<and> FileRename ''app_5.log'' ''app_2.log'' False \<in> set (events (snd (snd r)))
        \<and> FileRename ''app_2.log'' (''app_2.log'' @ ''.temp'') True \<notin> set (events (snd (snd r)))
        \<and> map fst (files (snd (snd r))) = [''app_1.log'', ''app_5.log'', ''app_3.log'', ''app_0.log'']"
  using undetected_rename_collision by auto

text \<open>
  C3: \<open>initLogging\<close> rotates before it stores the limits it was given. Called with at
  most two files over a directory of three small files, it succeeds, \<open>m_maxLogFiles\<close>
  is 2, and the three files are all still there; the next rotation takes the fast path
  and leaves them too.
\<close>

theorem initLogging_keeps_surplus_files:
  "initLogging releaseBuild noFailure ''/var/log/app'' 500 2 0 (initialState threeFiles)
     = Some (True, initialised)
   \<and> m_maxLogFiles initialised = 2
   \<and> filter (nameFilter releaseBuild) (map fst (files initialised))
       = [''app_0.log'', ''app_1.log'', ''app_2.log'']
   \<and> map_option (\<lambda>r. (fst r, map fst (files (snd (snd r)))))
        (rotateLogFiles releaseBuild noFailure (m_logFileName initialised) initialised)
      = Some (True, [''app_0.log'', ''app_1.log'', ''app_2.log''])"
proof -
  have i: "m_logDir initialised \<noteq> []" "files initialised = threeFiles"
    "m_maxLogFileSize initialised = 102400" "m_logFileName initialised = ''app_0.log''"
    "m_maxLogFiles initialised = 2"
    by (simp_all add: initialised_def initialState_def)
  have "rotateLogFiles releaseBuild noFailure (mainLogFileName releaseBuild) initialised
        = Some (rotateFinish releaseBuild noFailure initialised)"
    by (rule rotate_fast_path)
       (simp_all add: i releaseBuild_simps threeFiles_simps)
  then have "map_option (\<lambda>r. (fst r, map fst (files (snd (snd r)))))
        (rotateLogFiles releaseBuild noFailure (m_logFileName initialised) initialised)
      = Some (True, [''app_0.log'', ''app_1.log'', ''app_2.log''])"
    by (simp add: i releaseBuild_simps rotateFinish_release threeFiles_simps)
  moreover have "filter (nameFilter releaseBuild) (map fst (files initialised))
       = [''app_0.log'', ''app_1.log'', ''app_2.log'']"
    by (simp add: i threeFiles_simps nameFilter_def releaseBuild_simps)
  ultimately show ?thesis using initLogging_three i(5) by simp
qed



text \<open>In particular the directory holds more matching files than \<open>m_maxLogFiles\<close> allows.\<close>

theorem initLogging_keeps_surplus_files_witness:
  "\<exists>s. initLogging releaseBuild noFailure ''/var/log/app'' 500 2 0 (initialState threeFiles)
          = Some (True, s)
        \<and> m_maxLogFiles s < length (filter (nameFilter releaseBuild) (map fst (files s)))"
proof -
  note t = initLogging_keeps_surplus_files
  have "m_maxLogFiles initialised
        < length (filter (nameFilter releaseBuild) (map fst (files initialised)))"
    unfolding t[THEN conjunct2, THEN conjunct1] t[THEN conjunct2, THEN conjunct2, THEN conjunct1]
    by simp
  with t[THEN conjunct1] show ?thesis by blast
qed

end
